theory Spec2Isabelle
  imports Main "HOL-Library.Code_Target_Nat"
begin

section \<open>JavaScript strings\<close>

text \<open>
  A JavaScript string is a sequence of UTF-16 code units. A code unit is modelled as a
  natural number (at most \<open>0xFFFF\<close> in any string the program can hold); \<open>js\<close> turns
  an ASCII literal into such a sequence.
\<close>

type_synonym cu = nat
type_synonym jsstring = "cu list"

definition js :: "string \<Rightarrow> jsstring" where
  "js s = map of_char s"

definition chr :: "char \<Rightarrow> cu" where
  "chr c = of_char c"

text \<open>ECMAScript \<open>WhiteSpace\<close> and \<open>LineTerminator\<close>; their union is what \<open>trim\<close> strips
  and what the regular-expression class \<open>\s\<close> matches.\<close>

definition isWhiteSpace :: "cu \<Rightarrow> bool" where
  "isWhiteSpace c \<longleftrightarrow>
     c = 0x09 \<or> c = 0x0B \<or> c = 0x0C \<or> c = 0x20 \<or> c = 0xA0 \<or> c = 0x1680 \<or>
     (0x2000 \<le> c \<and> c \<le> 0x200A) \<or> c = 0x202F \<or> c = 0x205F \<or> c = 0x3000 \<or> c = 0xFEFF"

definition isLineTerminator :: "cu \<Rightarrow> bool" where
  "isLineTerminator c \<longleftrightarrow> c = 0x0A \<or> c = 0x0D \<or> c = 0x2028 \<or> c = 0x2029"

definition is_space :: "cu \<Rightarrow> bool" where
  "is_space c \<longleftrightarrow> isWhiteSpace c \<or> isLineTerminator c"

text \<open>The class \<open>\w\<close> (no \<open>i\<close> or \<open>u\<close> flag): \<open>[A-Za-z0-9_]\<close>.\<close>

definition is_word :: "cu \<Rightarrow> bool" where
  "is_word c \<longleftrightarrow>
     (0x41 \<le> c \<and> c \<le> 0x5A) \<or> (0x61 \<le> c \<and> c \<le> 0x7A) \<or> (0x30 \<le> c \<and> c \<le> 0x39) \<or> c = 0x5F"

text \<open>The class \<open>.\<close> (no \<open>s\<close> flag): every code unit but the line terminators.\<close>

definition is_dot :: "cu \<Rightarrow> bool" where
  "is_dot c \<longleftrightarrow> \<not> isLineTerminator c"

subsection \<open>\<open>String.prototype.trim\<close>\<close>

definition trimStart :: "jsstring \<Rightarrow> jsstring" where
  "trimStart s = dropWhile is_space s"

definition trimEnd :: "jsstring \<Rightarrow> jsstring" where
  "trimEnd s = rev (dropWhile is_space (rev s))"

definition trim :: "jsstring \<Rightarrow> jsstring" where
  "trim s = trimEnd (trimStart s)"

subsection \<open>\<open>String.prototype.toLowerCase\<close>\<close>

text \<open>
  \<open>toLowerCase\<close> reads the string as code points (\<open>StringToCodePoints\<close>: a high surrogate
  followed by a low surrogate is one code point, any other code unit is a code point of
  its own), maps them to lower case by the Unicode Default Case Conversion and writes the
  result back as code units (\<open>CodePointsToString\<close>).
\<close>

definition isHigh :: "cu \<Rightarrow> bool" where
  "isHigh c \<longleftrightarrow> 0xD800 \<le> c \<and> c \<le> 0xDBFF"

definition isLow :: "cu \<Rightarrow> bool" where
  "isLow c \<longleftrightarrow> 0xDC00 \<le> c \<and> c \<le> 0xDFFF"

definition pair_cp :: "cu \<Rightarrow> cu \<Rightarrow> nat" where
  "pair_cp h l = 0x10000 + (h - 0xD800) * 0x400 + (l - 0xDC00)"

definition cp_units :: "nat \<Rightarrow> jsstring" where
  "cp_units cp = (if cp < 0x10000 then [cp]
     else [0xD800 + (cp - 0x10000) div 0x400, 0xDC00 + (cp - 0x10000) mod 0x400])"

fun codePoints :: "jsstring \<Rightarrow> nat list" where
  "codePoints [] = []"
| "codePoints [c] = [c]"
| "codePoints (h # l # r) =
     (if isHigh h \<and> isLow l then pair_cp h l # codePoints r else h # codePoints (l # r))"

text \<open>
  The lower-case mappings of the Unicode Character Database, version 14.0: every code
  point with a lower-case mapping other than itself is in one entry \<open>(lo, hi, step, to)\<close>
  of \<open>lower_table\<close>, which maps \<open>lo\<close>, \<open>lo + step\<close>, ... up to \<open>hi\<close> to \<open>to\<close>, \<open>to + step\<close>,
  ... in this order. The entries are in ascending order, so the search stops at the first
  entry that starts behind the code point. \<open>U+0130\<close> is the one code point whose
  lower-case mapping has two code points (\<open>SpecialCasing.txt\<close>).
\<close>

type_synonym case_range = "nat \<times> nat \<times> nat \<times> nat"

definition lower_table :: "case_range list" where
  "lower_table =
    [
     (0x41, 0x5A, 1, 0x61), (0xC0, 0xD6, 1, 0xE0), (0xD8, 0xDE, 1, 0xF8), (0x100, 0x12E, 2, 0x101),
     (0x132, 0x136, 2, 0x133), (0x139, 0x147, 2, 0x13A), (0x14A, 0x176, 2, 0x14B), (0x178, 0x178, 1, 0xFF),
     (0x179, 0x17D, 2, 0x17A), (0x181, 0x181, 1, 0x253), (0x182, 0x184, 2, 0x183), (0x186, 0x186, 1, 0x254),
     (0x187, 0x187, 1, 0x188), (0x189, 0x18A, 1, 0x256), (0x18B, 0x18B, 1, 0x18C), (0x18E, 0x18E, 1, 0x1DD),
     (0x18F, 0x18F, 1, 0x259), (0x190, 0x190, 1, 0x25B), (0x191, 0x191, 1, 0x192), (0x193, 0x193, 1, 0x260),
     (0x194, 0x194, 1, 0x263), (0x196, 0x196, 1, 0x269), (0x197, 0x197, 1, 0x268), (0x198, 0x198, 1, 0x199),
     (0x19C, 0x19C, 1, 0x26F), (0x19D, 0x19D, 1, 0x272), (0x19F, 0x19F, 1, 0x275), (0x1A0, 0x1A4, 2, 0x1A1),
     (0x1A6, 0x1A6, 1, 0x280), (0x1A7, 0x1A7, 1, 0x1A8), (0x1A9, 0x1A9, 1, 0x283), (0x1AC, 0x1AC, 1, 0x1AD),
     (0x1AE, 0x1AE, 1, 0x288), (0x1AF, 0x1AF, 1, 0x1B0), (0x1B1, 0x1B2, 1, 0x28A), (0x1B3, 0x1B5, 2, 0x1B4),
     (0x1B7, 0x1B7, 1, 0x292), (0x1B8, 0x1B8, 1, 0x1B9), (0x1BC, 0x1BC, 1, 0x1BD), (0x1C4, 0x1C4, 1, 0x1C6),
     (0x1C5, 0x1C5, 1, 0x1C6), (0x1C7, 0x1C7, 1, 0x1C9), (0x1C8, 0x1C8, 1, 0x1C9), (0x1CA, 0x1CA, 1, 0x1CC),
     (0x1CB, 0x1DB, 2, 0x1CC), (0x1DE, 0x1EE, 2, 0x1DF), (0x1F1, 0x1F1, 1, 0x1F3), (0x1F2, 0x1F4, 2, 0x1F3),
     (0x1F6, 0x1F6, 1, 0x195), (0x1F7, 0x1F7, 1, 0x1BF), (0x1F8, 0x21E, 2, 0x1F9), (0x220, 0x220, 1, 0x19E),
     (0x222, 0x232, 2, 0x223), (0x23A, 0x23A, 1, 0x2C65), (0x23B, 0x23B, 1, 0x23C), (0x23D, 0x23D, 1, 0x19A),
     (0x23E, 0x23E, 1, 0x2C66), (0x241, 0x241, 1, 0x242), (0x243, 0x243, 1, 0x180), (0x244, 0x244, 1, 0x289),
     (0x245, 0x245, 1, 0x28C), (0x246, 0x24E, 2, 0x247), (0x370, 0x372, 2, 0x371), (0x376, 0x376, 1, 0x377),
     (0x37F, 0x37F, 1, 0x3F3), (0x386, 0x386, 1, 0x3AC), (0x388, 0x38A, 1, 0x3AD), (0x38C, 0x38C, 1, 0x3CC),
     (0x38E, 0x38F, 1, 0x3CD), (0x391, 0x3A1, 1, 0x3B1), (0x3A3, 0x3AB, 1, 0x3C3), (0x3CF, 0x3CF, 1, 0x3D7),
     (0x3D8, 0x3EE, 2, 0x3D9), (0x3F4, 0x3F4, 1, 0x3B8), (0x3F7, 0x3F7, 1, 0x3F8), (0x3F9, 0x3F9, 1, 0x3F2),
     (0x3FA, 0x3FA, 1, 0x3FB), (0x3FD, 0x3FF, 1, 0x37B), (0x400, 0x40F, 1, 0x450), (0x410, 0x42F, 1, 0x430),
     (0x460, 0x480, 2, 0x461), (0x48A, 0x4BE, 2, 0x48B), (0x4C0, 0x4C0, 1, 0x4CF), (0x4C1, 0x4CD, 2, 0x4C2),
     (0x4D0, 0x52E, 2, 0x4D1), (0x531, 0x556, 1, 0x561), (0x10A0, 0x10C5, 1, 0x2D00), (0x10C7, 0x10C7, 1, 0x2D27),
     (0x10CD, 0x10CD, 1, 0x2D2D), (0x13A0, 0x13EF, 1, 0xAB70), (0x13F0, 0x13F5, 1, 0x13F8), (0x1C90, 0x1CBA, 1, 0x10D0),
     (0x1CBD, 0x1CBF, 1, 0x10FD), (0x1E00, 0x1E94, 2, 0x1E01), (0x1E9E, 0x1E9E, 1, 0xDF), (0x1EA0, 0x1EFE, 2, 0x1EA1),
     (0x1F08, 0x1F0F, 1, 0x1F00), (0x1F18, 0x1F1D, 1, 0x1F10), (0x1F28, 0x1F2F, 1, 0x1F20), (0x1F38, 0x1F3F, 1, 0x1F30),
     (0x1F48, 0x1F4D, 1, 0x1F40), (0x1F59, 0x1F5F, 2, 0x1F51), (0x1F68, 0x1F6F, 1, 0x1F60), (0x1F88, 0x1F8F, 1, 0x1F80),
     (0x1F98, 0x1F9F, 1, 0x1F90), (0x1FA8, 0x1FAF, 1, 0x1FA0), (0x1FB8, 0x1FB9, 1, 0x1FB0), (0x1FBA, 0x1FBB, 1, 0x1F70),
     (0x1FBC, 0x1FBC, 1, 0x1FB3), (0x1FC8, 0x1FCB, 1, 0x1F72), (0x1FCC, 0x1FCC, 1, 0x1FC3), (0x1FD8, 0x1FD9, 1, 0x1FD0),
     (0x1FDA, 0x1FDB, 1, 0x1F76), (0x1FE8, 0x1FE9, 1, 0x1FE0), (0x1FEA, 0x1FEB, 1, 0x1F7A), (0x1FEC, 0x1FEC, 1, 0x1FE5),
     (0x1FF8, 0x1FF9, 1, 0x1F78), (0x1FFA, 0x1FFB, 1, 0x1F7C), (0x1FFC, 0x1FFC, 1, 0x1FF3), (0x2126, 0x2126, 1, 0x3C9),
     (0x212A, 0x212A, 1, 0x6B), (0x212B, 0x212B, 1, 0xE5), (0x2132, 0x2132, 1, 0x214E), (0x2160, 0x216F, 1, 0x2170),
     (0x2183, 0x2183, 1, 0x2184), (0x24B6, 0x24CF, 1, 0x24D0), (0x2C00, 0x2C2F, 1, 0x2C30), (0x2C60, 0x2C60, 1, 0x2C61),
     (0x2C62, 0x2C62, 1, 0x26B), (0x2C63, 0x2C63, 1, 0x1D7D), (0x2C64, 0x2C64, 1, 0x27D), (0x2C67, 0x2C6B, 2, 0x2C68),
     (0x2C6D, 0x2C6D, 1, 0x251), (0x2C6E, 0x2C6E, 1, 0x271), (0x2C6F, 0x2C6F, 1, 0x250), (0x2C70, 0x2C70, 1, 0x252),
     (0x2C72, 0x2C72, 1, 0x2C73), (0x2C75, 0x2C75, 1, 0x2C76), (0x2C7E, 0x2C7F, 1, 0x23F), (0x2C80, 0x2CE2, 2, 0x2C81),
     (0x2CEB, 0x2CED, 2, 0x2CEC), (0x2CF2, 0x2CF2, 1, 0x2CF3), (0xA640, 0xA66C, 2, 0xA641), (0xA680, 0xA69A, 2, 0xA681),
     (0xA722, 0xA72E, 2, 0xA723), (0xA732, 0xA76E, 2, 0xA733), (0xA779, 0xA77B, 2, 0xA77A), (0xA77D, 0xA77D, 1, 0x1D79),
     (0xA77E, 0xA786, 2, 0xA77F), (0xA78B, 0xA78B, 1, 0xA78C), (0xA78D, 0xA78D, 1, 0x265), (0xA790, 0xA792, 2, 0xA791),
     (0xA796, 0xA7A8, 2, 0xA797), (0xA7AA, 0xA7AA, 1, 0x266), (0xA7AB, 0xA7AB, 1, 0x25C), (0xA7AC, 0xA7AC, 1, 0x261),
     (0xA7AD, 0xA7AD, 1, 0x26C), (0xA7AE, 0xA7AE, 1, 0x26A), (0xA7B0, 0xA7B0, 1, 0x29E), (0xA7B1, 0xA7B1, 1, 0x287),
     (0xA7B2, 0xA7B2, 1, 0x29D), (0xA7B3, 0xA7B3, 1, 0xAB53), (0xA7B4, 0xA7C2, 2, 0xA7B5), (0xA7C4, 0xA7C4, 1, 0xA794),
     (0xA7C5, 0xA7C5, 1, 0x282), (0xA7C6, 0xA7C6, 1, 0x1D8E), (0xA7C7, 0xA7C9, 2, 0xA7C8), (0xA7D0, 0xA7D0, 1, 0xA7D1),
     (0xA7D6, 0xA7D8, 2, 0xA7D7), (0xA7F5, 0xA7F5, 1, 0xA7F6), (0xFF21, 0xFF3A, 1, 0xFF41), (0x10400, 0x10427, 1, 0x10428),
     (0x104B0, 0x104D3, 1, 0x104D8), (0x10570, 0x1057A, 1, 0x10597), (0x1057C, 0x1058A, 1, 0x105A3), (0x1058C, 0x10592, 1, 0x105B3),
     (0x10594, 0x10595, 1, 0x105BB), (0x10C80, 0x10CB2, 1, 0x10CC0), (0x118A0, 0x118BF, 1, 0x118C0), (0x16E40, 0x16E5F, 1, 0x16E60),
     (0x1E900, 0x1E921, 1, 0x1E922)
    ]"

fun lookup_lower :: "nat \<Rightarrow> case_range list \<Rightarrow> nat option" where
  "lookup_lower cp [] = None"
| "lookup_lower cp ((lo, hi, st, tlo) # rs) =
     (if cp < lo then None
      else if cp \<le> hi \<and> (cp - lo) mod st = 0 then Some (tlo + (cp - lo))
      else lookup_lower cp rs)"

definition lower_cp :: "nat \<Rightarrow> nat list" where
  "lower_cp cp =
     (if cp = 0x130 then [0x69, 0x307]
      else case lookup_lower cp lower_table of None \<Rightarrow> [cp] | Some t \<Rightarrow> [t])"

text \<open>
  The one mapping that depends on the neighbours: capital sigma \<open>U+03A3\<close> becomes the final
  small sigma \<open>U+03C2\<close> when, passing over case-ignorable code points, a cased letter
  stands before it and none stands behind it, and the small sigma \<open>U+03C3\<close> otherwise.
  \<open>case_ignorable_table\<close> lists the code points with the property \<open>Case_Ignorable\<close>, and
  \<open>cased_table\<close> those with the property \<open>Cased\<close> that are not case-ignorable (the scan has
  passed the case-ignorable ones when it asks for a cased letter), both as intervals in
  ascending order and of version 14.0.
\<close>

definition case_ignorable_table :: "(nat \<times> nat) list" where
  "case_ignorable_table =
    [
     (0x27, 0x27), (0x2E, 0x2E), (0x3A, 0x3A), (0x5E, 0x5E), (0x60, 0x60), (0xA8, 0xA8),
     (0xAD, 0xAD), (0xAF, 0xAF), (0xB4, 0xB4), (0xB7, 0xB8), (0x2B0, 0x36F), (0x374, 0x375),
     (0x37A, 0x37A), (0x384, 0x385), (0x387, 0x387), (0x483, 0x489), (0x559, 0x559), (0x55F, 0x55F),
     (0x591, 0x5BD), (0x5BF, 0x5BF), (0x5C1, 0x5C2), (0x5C4, 0x5C5), (0x5C7, 0x5C7), (0x5F4, 0x5F4),
     (0x600, 0x605), (0x610, 0x61A), (0x61C, 0x61C), (0x640, 0x640), (0x64B, 0x65F), (0x670, 0x670),
     (0x6D6, 0x6DD), (0x6DF, 0x6E8), (0x6EA, 0x6ED), (0x70F, 0x70F), (0x711, 0x711), (0x730, 0x74A),
     (0x7A6, 0x7B0), (0x7EB, 0x7F5), (0x7FA, 0x7FA), (0x7FD, 0x7FD), (0x816, 0x82D), (0x859, 0x85B),
     (0x888, 0x888), (0x890, 0x891), (0x898, 0x89F), (0x8C9, 0x902), (0x93A, 0x93A), (0x93C, 0x93C),
     (0x941, 0x948), (0x94D, 0x94D), (0x951, 0x957), (0x962, 0x963), (0x971, 0x971), (0x981, 0x981),
     (0x9BC, 0x9BC), (0x9C1, 0x9C4), (0x9CD, 0x9CD), (0x9E2, 0x9E3), (0x9FE, 0x9FE), (0xA01, 0xA02),
     (0xA3C, 0xA3C), (0xA41, 0xA42), (0xA47, 0xA48), (0xA4B, 0xA4D), (0xA51, 0xA51), (0xA70, 0xA71),
     (0xA75, 0xA75), (0xA81, 0xA82), (0xABC, 0xABC), (0xAC1, 0xAC5), (0xAC7, 0xAC8), (0xACD, 0xACD),
     (0xAE2, 0xAE3), (0xAFA, 0xAFF), (0xB01, 0xB01), (0xB3C, 0xB3C), (0xB3F, 0xB3F), (0xB41, 0xB44),
     (0xB4D, 0xB4D), (0xB55, 0xB56), (0xB62, 0xB63), (0xB82, 0xB82), (0xBC0, 0xBC0), (0xBCD, 0xBCD),
     (0xC00, 0xC00), (0xC04, 0xC04), (0xC3C, 0xC3C), (0xC3E, 0xC40), (0xC46, 0xC48), (0xC4A, 0xC4D),
     (0xC55, 0xC56), (0xC62, 0xC63), (0xC81, 0xC81), (0xCBC, 0xCBC), (0xCBF, 0xCBF), (0xCC6, 0xCC6),
     (0xCCC, 0xCCD), (0xCE2, 0xCE3), (0xD00, 0xD01), (0xD3B, 0xD3C), (0xD41, 0xD44), (0xD4D, 0xD4D),
     (0xD62, 0xD63), (0xD81, 0xD81), (0xDCA, 0xDCA), (0xDD2, 0xDD4), (0xDD6, 0xDD6), (0xE31, 0xE31),
     (0xE34, 0xE3A), (0xE46, 0xE4E), (0xEB1, 0xEB1), (0xEB4, 0xEBC), (0xEC6, 0xEC6), (0xEC8, 0xECD),
     (0xF18, 0xF19), (0xF35, 0xF35), (0xF37, 0xF37), (0xF39, 0xF39), (0xF71, 0xF7E), (0xF80, 0xF84),
     (0xF86, 0xF87), (0xF8D, 0xF97), (0xF99, 0xFBC), (0xFC6, 0xFC6), (0x102D, 0x1030), (0x1032, 0x1037),
     (0x1039, 0x103A), (0x103D, 0x103E), (0x1058, 0x1059), (0x105E, 0x1060), (0x1071, 0x1074), (0x1082, 0x1082),
     (0x1085, 0x1086), (0x108D, 0x108D), (0x109D, 0x109D), (0x10FC, 0x10FC), (0x135D, 0x135F), (0x1712, 0x1714),
     (0x1732, 0x1733), (0x1752, 0x1753), (0x1772, 0x1773), (0x17B4, 0x17B5), (0x17B7, 0x17BD), (0x17C6, 0x17C6),
     (0x17C9, 0x17D3), (0x17D7, 0x17D7), (0x17DD, 0x17DD), (0x180B, 0x180F), (0x1843, 0x1843), (0x1885, 0x1886),
     (0x18A9, 0x18A9), (0x1920, 0x1922), (0x1927, 0x1928), (0x1932, 0x1932), (0x1939, 0x193B), (0x1A17, 0x1A18),
     (0x1A1B, 0x1A1B), (0x1A56, 0x1A56), (0x1A58, 0x1A5E), (0x1A60, 0x1A60), (0x1A62, 0x1A62), (0x1A65, 0x1A6C),
     (0x1A73, 0x1A7C), (0x1A7F, 0x1A7F), (0x1AA7, 0x1AA7), (0x1AB0, 0x1ACE), (0x1B00, 0x1B03), (0x1B34, 0x1B34),
     (0x1B36, 0x1B3A), (0x1B3C, 0x1B3C), (0x1B42, 0x1B42), (0x1B6B, 0x1B73), (0x1B80, 0x1B81), (0x1BA2, 0x1BA5),
     (0x1BA8, 0x1BA9), (0x1BAB, 0x1BAD), (0x1BE6, 0x1BE6), (0x1BE8, 0x1BE9), (0x1BED, 0x1BED), (0x1BEF, 0x1BF1),
     (0x1C2C, 0x1C33), (0x1C36, 0x1C37), (0x1C78, 0x1C7D), (0x1CD0, 0x1CD2), (0x1CD4, 0x1CE0), (0x1CE2, 0x1CE8),
     (0x1CED, 0x1CED), (0x1CF4, 0x1CF4), (0x1CF8, 0x1CF9), (0x1D2C, 0x1D6A), (0x1D78, 0x1D78), (0x1D9B, 0x1DFF),
     (0x1FBD, 0x1FBD), (0x1FBF, 0x1FC1), (0x1FCD, 0x1FCF), (0x1FDD, 0x1FDF), (0x1FED, 0x1FEF), (0x1FFD, 0x1FFE),
     (0x200B, 0x200F), (0x2018, 0x2019), (0x2024, 0x2024), (0x2027, 0x2027), (0x202A, 0x202E), (0x2060, 0x2064),
     (0x2066, 0x206F), (0x2071, 0x2071), (0x207F, 0x207F), (0x2090, 0x209C), (0x20D0, 0x20F0), (0x2C7C, 0x2C7D),
     (0x2CEF, 0x2CF1), (0x2D6F, 0x2D6F), (0x2D7F, 0x2D7F), (0x2DE0, 0x2DFF), (0x2E2F, 0x2E2F), (0x3005, 0x3005),
     (0x302A, 0x302D), (0x3031, 0x3035), (0x303B, 0x303B), (0x3099, 0x309E), (0x30FC, 0x30FE), (0xA015, 0xA015),
     (0xA4F8, 0xA4FD), (0xA60C, 0xA60C), (0xA66F, 0xA672), (0xA674, 0xA67D), (0xA67F, 0xA67F), (0xA69C, 0xA69F),
     (0xA6F0, 0xA6F1), (0xA700, 0xA721), (0xA770, 0xA770), (0xA788, 0xA78A), (0xA7F2, 0xA7F4), (0xA7F8, 0xA7F9),
     (0xA802, 0xA802), (0xA806, 0xA806), (0xA80B, 0xA80B), (0xA825, 0xA826), (0xA82C, 0xA82C), (0xA8C4, 0xA8C5),
     (0xA8E0, 0xA8F1), (0xA8FF, 0xA8FF), (0xA926, 0xA92D), (0xA947, 0xA951), (0xA980, 0xA982), (0xA9B3, 0xA9B3),
     (0xA9B6, 0xA9B9), (0xA9BC, 0xA9BD), (0xA9CF, 0xA9CF), (0xA9E5, 0xA9E6), (0xAA29, 0xAA2E), (0xAA31, 0xAA32),
     (0xAA35, 0xAA36), (0xAA43, 0xAA43), (0xAA4C, 0xAA4C), (0xAA70, 0xAA70), (0xAA7C, 0xAA7C), (0xAAB0, 0xAAB0),
     (0xAAB2, 0xAAB4), (0xAAB7, 0xAAB8), (0xAABE, 0xAABF), (0xAAC1, 0xAAC1), (0xAADD, 0xAADD), (0xAAEC, 0xAAED),
     (0xAAF3, 0xAAF4), (0xAAF6, 0xAAF6), (0xAB5B, 0xAB5F), (0xAB69, 0xAB6B), (0xABE5, 0xABE5), (0xABE8, 0xABE8),
     (0xABED, 0xABED), (0xFB1E, 0xFB1E), (0xFBB2, 0xFBC2), (0xFE00, 0xFE0F), (0xFE13, 0xFE13), (0xFE20, 0xFE2F),
     (0xFE52, 0xFE52), (0xFE55, 0xFE55), (0xFEFF, 0xFEFF), (0xFF07, 0xFF07), (0xFF0E, 0xFF0E), (0xFF1A, 0xFF1A),
     (0xFF3E, 0xFF3E), (0xFF40, 0xFF40), (0xFF70, 0xFF70), (0xFF9E, 0xFF9F), (0xFFE3, 0xFFE3), (0xFFF9, 0xFFFB),
     (0x101FD, 0x101FD), (0x102E0, 0x102E0), (0x10376, 0x1037A), (0x10780, 0x10785), (0x10787, 0x107B0), (0x107B2, 0x107BA),
     (0x10A01, 0x10A03), (0x10A05, 0x10A06), (0x10A0C, 0x10A0F), (0x10A38, 0x10A3A), (0x10A3F, 0x10A3F), (0x10AE5, 0x10AE6),
     (0x10D24, 0x10D27), (0x10EAB, 0x10EAC), (0x10F46, 0x10F50), (0x10F82, 0x10F85), (0x11001, 0x11001), (0x11038, 0x11046),
     (0x11070, 0x11070), (0x11073, 0x11074), (0x1107F, 0x11081), (0x110B3, 0x110B6), (0x110B9, 0x110BA), (0x110BD, 0x110BD),
     (0x110C2, 0x110C2), (0x110CD, 0x110CD), (0x11100, 0x11102), (0x11127, 0x1112B), (0x1112D, 0x11134), (0x11173, 0x11173),
     (0x11180, 0x11181), (0x111B6, 0x111BE), (0x111C9, 0x111CC), (0x111CF, 0x111CF), (0x1122F, 0x11231), (0x11234, 0x11234),
     (0x11236, 0x11237), (0x1123E, 0x1123E), (0x112DF, 0x112DF), (0x112E3, 0x112EA), (0x11300, 0x11301), (0x1133B, 0x1133C),
     (0x11340, 0x11340), (0x11366, 0x1136C), (0x11370, 0x11374), (0x11438, 0x1143F), (0x11442, 0x11444), (0x11446, 0x11446),
     (0x1145E, 0x1145E), (0x114B3, 0x114B8), (0x114BA, 0x114BA), (0x114BF, 0x114C0), (0x114C2, 0x114C3), (0x115B2, 0x115B5),
     (0x115BC, 0x115BD), (0x115BF, 0x115C0), (0x115DC, 0x115DD), (0x11633, 0x1163A), (0x1163D, 0x1163D), (0x1163F, 0x11640),
     (0x116AB, 0x116AB), (0x116AD, 0x116AD), (0x116B0, 0x116B5), (0x116B7, 0x116B7), (0x1171D, 0x1171F), (0x11722, 0x11725),
     (0x11727, 0x1172B), (0x1182F, 0x11837), (0x11839, 0x1183A), (0x1193B, 0x1193C), (0x1193E, 0x1193E), (0x11943, 0x11943),
     (0x119D4, 0x119D7), (0x119DA, 0x119DB), (0x119E0, 0x119E0), (0x11A01, 0x11A0A), (0x11A33, 0x11A38), (0x11A3B, 0x11A3E),
     (0x11A47, 0x11A47), (0x11A51, 0x11A56), (0x11A59, 0x11A5B), (0x11A8A, 0x11A96), (0x11A98, 0x11A99), (0x11C30, 0x11C36),
     (0x11C38, 0x11C3D), (0x11C3F, 0x11C3F), (0x11C92, 0x11CA7), (0x11CAA, 0x11CB0), (0x11CB2, 0x11CB3), (0x11CB5, 0x11CB6),
     (0x11D31, 0x11D36), (0x11D3A, 0x11D3A), (0x11D3C, 0x11D3D), (0x11D3F, 0x11D45), (0x11D47, 0x11D47), (0x11D90, 0x11D91),
     (0x11D95, 0x11D95), (0x11D97, 0x11D97), (0x11EF3, 0x11EF4), (0x13430, 0x13438), (0x16AF0, 0x16AF4), (0x16B30, 0x16B36),
     (0x16B40, 0x16B43), (0x16F4F, 0x16F4F), (0x16F8F, 0x16F9F), (0x16FE0, 0x16FE1), (0x16FE3, 0x16FE4), (0x1AFF0, 0x1AFF3),
     (0x1AFF5, 0x1AFFB), (0x1AFFD, 0x1AFFE), (0x1BC9D, 0x1BC9E), (0x1BCA0, 0x1BCA3), (0x1CF00, 0x1CF2D), (0x1CF30, 0x1CF46),
     (0x1D167, 0x1D169), (0x1D173, 0x1D182), (0x1D185, 0x1D18B), (0x1D1AA, 0x1D1AD), (0x1D242, 0x1D244), (0x1DA00, 0x1DA36),
     (0x1DA3B, 0x1DA6C), (0x1DA75, 0x1DA75), (0x1DA84, 0x1DA84), (0x1DA9B, 0x1DA9F), (0x1DAA1, 0x1DAAF), (0x1E000, 0x1E006),
     (0x1E008, 0x1E018), (0x1E01B, 0x1E021), (0x1E023, 0x1E024), (0x1E026, 0x1E02A), (0x1E130, 0x1E13D), (0x1E2AE, 0x1E2AE),
     (0x1E2EC, 0x1E2EF), (0x1E8D0, 0x1E8D6), (0x1E944, 0x1E94B), (0x1F3FB, 0x1F3FF), (0xE0001, 0xE0001), (0xE0020, 0xE007F),
     (0xE0100, 0xE01EF)
    ]"

definition cased_table :: "(nat \<times> nat) list" where
  "cased_table =
    [
     (0x41, 0x5A), (0x61, 0x7A), (0xAA, 0xAA), (0xB5, 0xB5), (0xBA, 0xBA), (0xC0, 0xD6),
     (0xD8, 0xF6), (0xF8, 0x1BA), (0x1BC, 0x1BF), (0x1C4, 0x293), (0x295, 0x2AF), (0x370, 0x373),
     (0x376, 0x377), (0x37B, 0x37D), (0x37F, 0x37F), (0x386, 0x386), (0x388, 0x38A), (0x38C, 0x38C),
     (0x38E, 0x3A1), (0x3A3, 0x3F5), (0x3F7, 0x481), (0x48A, 0x52F), (0x531, 0x556), (0x560, 0x588),
     (0x10A0, 0x10C5), (0x10C7, 0x10C7), (0x10CD, 0x10CD), (0x10D0, 0x10FA), (0x10FD, 0x10FF), (0x13A0, 0x13F5),
     (0x13F8, 0x13FD), (0x1C80, 0x1C88), (0x1C90, 0x1CBA), (0x1CBD, 0x1CBF), (0x1D00, 0x1D2B), (0x1D6B, 0x1D77),
     (0x1D79, 0x1D9A), (0x1E00, 0x1F15), (0x1F18, 0x1F1D), (0x1F20, 0x1F45), (0x1F48, 0x1F4D), (0x1F50, 0x1F57),
     (0x1F59, 0x1F59), (0x1F5B, 0x1F5B), (0x1F5D, 0x1F5D), (0x1F5F, 0x1F7D), (0x1F80, 0x1FB4), (0x1FB6, 0x1FBC),
     (0x1FBE, 0x1FBE), (0x1FC2, 0x1FC4), (0x1FC6, 0x1FCC), (0x1FD0, 0x1FD3), (0x1FD6, 0x1FDB), (0x1FE0, 0x1FEC),
     (0x1FF2, 0x1FF4), (0x1FF6, 0x1FFC), (0x2102, 0x2102), (0x2107, 0x2107), (0x210A, 0x2113), (0x2115, 0x2115),
     (0x2119, 0x211D), (0x2124, 0x2124), (0x2126, 0x2126), (0x2128, 0x2128), (0x212A, 0x212D), (0x212F, 0x2134),
     (0x2139, 0x2139), (0x213C, 0x213F), (0x2145, 0x2149), (0x214E, 0x214E), (0x2160, 0x217F), (0x2183, 0x2184),
     (0x24B6, 0x24E9), (0x2C00, 0x2C7B), (0x2C7E, 0x2CE4), (0x2CEB, 0x2CEE), (0x2CF2, 0x2CF3), (0x2D00, 0x2D25),
     (0x2D27, 0x2D27), (0x2D2D, 0x2D2D), (0xA640, 0xA66D), (0xA680, 0xA69B), (0xA722, 0xA76F), (0xA771, 0xA787),
     (0xA78B, 0xA78E), (0xA790, 0xA7CA), (0xA7D0, 0xA7D1), (0xA7D3, 0xA7D3), (0xA7D5, 0xA7D9), (0xA7F5, 0xA7F6),
     (0xA7FA, 0xA7FA), (0xAB30, 0xAB5A), (0xAB60, 0xAB68), (0xAB70, 0xABBF), (0xFB00, 0xFB06), (0xFB13, 0xFB17),
     (0xFF21, 0xFF3A), (0xFF41, 0xFF5A), (0x10400, 0x1044F), (0x104B0, 0x104D3), (0x104D8, 0x104FB), (0x10570, 0x1057A),
     (0x1057C, 0x1058A), (0x1058C, 0x10592), (0x10594, 0x10595), (0x10597, 0x105A1), (0x105A3, 0x105B1), (0x105B3, 0x105B9),
     (0x105BB, 0x105BC), (0x10C80, 0x10CB2), (0x10CC0, 0x10CF2), (0x118A0, 0x118DF), (0x16E40, 0x16E7F), (0x1D400, 0x1D454),
     (0x1D456, 0x1D49C), (0x1D49E, 0x1D49F), (0x1D4A2, 0x1D4A2), (0x1D4A5, 0x1D4A6), (0x1D4A9, 0x1D4AC), (0x1D4AE, 0x1D4B9),
     (0x1D4BB, 0x1D4BB), (0x1D4BD, 0x1D4C3), (0x1D4C5, 0x1D505), (0x1D507, 0x1D50A), (0x1D50D, 0x1D514), (0x1D516, 0x1D51C),
     (0x1D51E, 0x1D539), (0x1D53B, 0x1D53E), (0x1D540, 0x1D544), (0x1D546, 0x1D546), (0x1D54A, 0x1D550), (0x1D552, 0x1D6A5),
     (0x1D6A8, 0x1D6C0), (0x1D6C2, 0x1D6DA), (0x1D6DC, 0x1D6FA), (0x1D6FC, 0x1D714), (0x1D716, 0x1D734), (0x1D736, 0x1D74E),
     (0x1D750, 0x1D76E), (0x1D770, 0x1D788), (0x1D78A, 0x1D7A8), (0x1D7AA, 0x1D7C2), (0x1D7C4, 0x1D7CB), (0x1DF00, 0x1DF09),
     (0x1DF0B, 0x1DF1E), (0x1E900, 0x1E943), (0x1F130, 0x1F149), (0x1F150, 0x1F169), (0x1F170, 0x1F189)
    ]"

fun in_ranges :: "nat \<Rightarrow> (nat \<times> nat) list \<Rightarrow> bool" where
  "in_ranges cp [] = False"
| "in_ranges cp ((lo, hi) # rs) =
     (if cp < lo then False else if cp \<le> hi then True else in_ranges cp rs)"

definition case_ignorable :: "nat \<Rightarrow> bool" where
  "case_ignorable cp \<longleftrightarrow> in_ranges cp case_ignorable_table"

definition cased :: "nat \<Rightarrow> bool" where
  "cased cp \<longleftrightarrow> in_ranges cp cased_table"

text \<open>\<open>pre\<close> holds the code points before the sigma, the nearest first, and \<open>post\<close> the
  code points behind it.\<close>

definition final_sigma :: "nat list \<Rightarrow> nat list \<Rightarrow> bool" where
  "final_sigma pre post \<longleftrightarrow>
     (case dropWhile case_ignorable pre of [] \<Rightarrow> False | c # _ \<Rightarrow> cased c) \<and>
     (case dropWhile case_ignorable post of [] \<Rightarrow> True | c # _ \<Rightarrow> \<not> cased c)"

fun lower_seq :: "nat list \<Rightarrow> nat list \<Rightarrow> nat list" where
  "lower_seq pre [] = []"
| "lower_seq pre (c # post) =
     (if c = 0x3A3 then [if final_sigma pre post then 0x3C2 else 0x3C3] else lower_cp c) @
     lower_seq (c # pre) post"

definition toLowerCase :: "jsstring \<Rightarrow> jsstring" where
  "toLowerCase s = concat (map cp_units (lower_seq [] (codePoints s)))"

subsection \<open>\<open>split('\n')\<close>, \<open>join('\n')\<close> and number formatting\<close>

fun split_nl :: "jsstring \<Rightarrow> jsstring list" where
  "split_nl [] = [[]]"
| "split_nl (c # cs) =
     (if c = 0x0A then [] # split_nl cs
      else (case split_nl cs of [] \<Rightarrow> [[c]] | l # ls \<Rightarrow> (c # l) # ls))"

fun join_nl :: "jsstring list \<Rightarrow> jsstring" where
  "join_nl [] = []"
| "join_nl [l] = l"
| "join_nl (l # l' # ls) = l @ 0x0A # join_nl (l' # ls)"

text \<open>A non-negative integer inside a template literal: its decimal digits.\<close>

fun numToString :: "nat \<Rightarrow> jsstring" where
  "numToString n = (if n < 10 then [0x30 + n] else numToString (n div 10) @ [0x30 + n mod 10])"

declare numToString.simps [simp del]

section \<open>Regular expressions\<close>

text \<open>
  Every regular expression of \<open>markdownUtils.ts\<close> is a sequence of greedy repetitions of a
  character class (a literal is the class of one character repeated exactly once), some of
  them capturing, optionally closed by \<open>$\<close>. \<open>Rep p lo hi cap\<close> is the class \<open>p\<close> repeated
  \<open>lo\<close> to \<open>hi\<close> times (\<open>None\<close>: no upper bound), a capture group when \<open>cap\<close> holds.

  \<open>match_here\<close> is the backtracking matcher at one start position: a repetition first
  takes as many code units as it can and gives them back one at a time while the rest of
  the pattern fails. It returns the captured groups and the unread rest of the input.
\<close>

datatype atom = Rep "cu \<Rightarrow> bool" nat "nat option" bool | Eos

definition lit :: "char \<Rightarrow> atom" where
  "lit ch = Rep (\<lambda>c. c = chr ch) 1 (Some 1) False"

definition greedy :: "(cu \<Rightarrow> bool) \<Rightarrow> nat option \<Rightarrow> jsstring \<Rightarrow> nat" where
  "greedy p hi s = (case hi of None \<Rightarrow> length (takeWhile p s)
                              | Some m \<Rightarrow> min m (length (takeWhile p s)))"

primrec first_some :: "('a \<Rightarrow> 'b option) \<Rightarrow> 'a list \<Rightarrow> 'b option" where
  "first_some f [] = None"
| "first_some f (x # xs) = (case f x of Some y \<Rightarrow> Some y | None \<Rightarrow> first_some f xs)"

primrec match_here :: "atom list \<Rightarrow> jsstring \<Rightarrow> (jsstring list \<times> jsstring) option" where
  "match_here [] s = Some ([], s)"
| "match_here (a # as) s =
     (case a of
        Eos \<Rightarrow> (if s = [] then match_here as s else None)
      | Rep p lo hi cap \<Rightarrow>
          first_some
            (\<lambda>j. case match_here as (drop j s) of
                    None \<Rightarrow> None
                  | Some (gs, rest) \<Rightarrow> Some ((if cap then [take j s] else []) @ gs, rest))
            (rev [lo ..< Suc (greedy p hi s)]))"

text \<open>What it means that a pattern matches at the start of a string, said without the
  search order: the string splits into one piece for each repetition, of an allowed length
  and of code units of its class, and the end of input is where \<open>$\<close> stands.\<close>

fun accepts :: "atom list \<Rightarrow> jsstring \<Rightarrow> bool" where
  "accepts [] s = True"
| "accepts (Eos # as) s = (s = [] \<and> accepts as s)"
| "accepts (Rep p lo hi cap # as) s =
     (\<exists>j. lo \<le> j \<and> j \<le> length s \<and> (case hi of None \<Rightarrow> True | Some m \<Rightarrow> j \<le> m) \<and>
          (\<forall>c\<in>set (take j s). p c) \<and> accepts as (drop j s))"

text \<open>The same with the result: \<open>parses re s gs r\<close> says that the pattern matches a piece
  at the start of \<open>s\<close> with the captured groups \<open>gs\<close> and leaves \<open>r\<close> unread.\<close>

fun parses :: "atom list \<Rightarrow> jsstring \<Rightarrow> jsstring list \<Rightarrow> jsstring \<Rightarrow> bool" where
  "parses [] s gs r = (gs = [] \<and> r = s)"
| "parses (Eos # as) s gs r = (s = [] \<and> parses as s gs r)"
| "parses (Rep p lo hi cap # as) s gs r =
     (\<exists>j. lo \<le> j \<and> j \<le> length s \<and> (case hi of None \<Rightarrow> True | Some m \<Rightarrow> j \<le> m) \<and>
          (\<forall>c\<in>set (take j s). p c) \<and>
          (if cap then gs \<noteq> [] \<and> hd gs = take j s \<and> parses as (drop j s) (tl gs) r
           else parses as (drop j s) gs r))"

text \<open>\<open>re.test(s)\<close> and \<open>s.replace(re, f)\<close> for a pattern that starts with \<open>^\<close> (no \<open>m\<close>
  flag): only position 0 is tried.\<close>

definition test_anchored :: "atom list \<Rightarrow> jsstring \<Rightarrow> bool" where
  "test_anchored re s \<longleftrightarrow> match_here re s \<noteq> None"

definition replace_anchored :: "atom list \<Rightarrow> (jsstring list \<Rightarrow> jsstring) \<Rightarrow> jsstring \<Rightarrow> jsstring" where
  "replace_anchored re f s =
     (case match_here re s of None \<Rightarrow> s | Some (gs, rest) \<Rightarrow> f gs @ rest)"

text \<open>\<open>s.replace(re, f)\<close> for a pattern with the \<open>g\<close> flag: the leftmost match is
  replaced and the scan goes on behind it; after an empty match one code unit is copied.\<close>

function replace_g :: "atom list \<Rightarrow> (jsstring list \<Rightarrow> jsstring) \<Rightarrow> jsstring \<Rightarrow> jsstring" where
  "replace_g re f [] = (case match_here re [] of Some (gs, rest) \<Rightarrow> f gs | None \<Rightarrow> [])"
| "replace_g re f (c # cs) =
     (case match_here re (c # cs) of
        Some (gs, rest) \<Rightarrow>
          (if length rest \<le> length cs then f gs @ replace_g re f rest
           else f gs @ c # replace_g re f cs)
      | None \<Rightarrow> c # replace_g re f cs)"
  by pat_completeness auto
termination
  by (relation "measure (\<lambda>(re, f, s). length s)") auto

declare replace_g.simps [simp del]

text \<open>The replacement strings \<open>'$1'\<close> and a constant.\<close>

definition group1 :: "jsstring list \<Rightarrow> jsstring" where
  "group1 gs = (case gs of [] \<Rightarrow> [] | g # _ \<Rightarrow> g)"

definition const_str :: "jsstring \<Rightarrow> jsstring list \<Rightarrow> jsstring" where
  "const_str r gs = r"

section \<open>\<open>slugify\<close>\<close>

text \<open>
  \<^verbatim>\<open>
  export const slugify = (text: string): string => {
    return text
      .toLowerCase()
      .trim()
      .replace(/\s+/g, '-')
      .replace(/[^\w\-\u0080-\uFFFF]+/g, '');
  };
  \<close>
\<close>

text \<open>\<open>/\s+/g\<close> and \<open>/[^\w\-\u0080-\uFFFF]+/g\<close>.\<close>

definition re_spaces :: "atom list" where
  "re_spaces = [Rep is_space 1 None False]"

definition slug_keep :: "cu \<Rightarrow> bool" where
  "slug_keep c \<longleftrightarrow> is_word c \<or> c = 0x2D \<or> (0x80 \<le> c \<and> c \<le> 0xFFFF)"

definition re_unsafe :: "atom list" where
  "re_unsafe = [Rep (\<lambda>c. \<not> slug_keep c) 1 None False]"

definition slugify :: "jsstring \<Rightarrow> jsstring" where
  "slugify text =
     replace_g re_unsafe (const_str [])
       (replace_g re_spaces (const_str (js ''-''))
         (trim (toLowerCase text)))"

section \<open>\<open>cleanMarkdown\<close>\<close>

text \<open>
  \<^verbatim>\<open>
  const cleanMarkdown = (text: string): string => {
    return text
      // Remove links: [text](url) -> text
      .replace(/\[([^\]]+)\]\([^)]+\)/g, '$1')
      // Remove images: ![text](url) -> text
      .replace(/!\[([^\]]*)\]\([^)]+\)/g, '$1')
      // Remove inline code: `text` -> text
      .replace(/`([^`]+)`/g, '$1')
      // Remove bold/italic: *text* or __text__ -> text
      .replace(/[*_]{1,3}([^*_]+)[*_]{1,3}/g, '$1');
  };
  \<close>
\<close>

text \<open>\<open>/\[([^\]]+)\]\([^)]+\)/g\<close>, \<open>/!\[([^\]]*)\]\([^)]+\)/g\<close>, \<open>/`([^`]+)`/g\<close> and
  \<open>/[*_]{1,3}([^*_]+)[*_]{1,3}/g\<close>.\<close>

definition is_marker :: "cu \<Rightarrow> bool" where
  "is_marker c \<longleftrightarrow> c = 0x2A \<or> c = 0x5F"

definition re_link :: "atom list" where
  "re_link = [lit CHR ''['', Rep (\<lambda>c. c \<noteq> chr CHR '']'') 1 None True, lit CHR '']'',
              lit CHR ''('', Rep (\<lambda>c. c \<noteq> chr CHR '')'') 1 None False, lit CHR '')'']"

definition re_image :: "atom list" where
  "re_image = [lit CHR ''!'', lit CHR ''['', Rep (\<lambda>c. c \<noteq> chr CHR '']'') 0 None True,
               lit CHR '']'', lit CHR ''('', Rep (\<lambda>c. c \<noteq> chr CHR '')'') 1 None False,
               lit CHR '')'']"

definition re_code :: "atom list" where
  "re_code = [lit (CHR 0x60), Rep (\<lambda>c. c \<noteq> 0x60) 1 None True, lit (CHR 0x60)]"

definition re_emphasis :: "atom list" where
  "re_emphasis = [Rep is_marker 1 (Some 3) False, Rep (\<lambda>c. \<not> is_marker c) 1 None True,
                  Rep is_marker 1 (Some 3) False]"

definition cleanMarkdown :: "jsstring \<Rightarrow> jsstring" where
  "cleanMarkdown text =
     replace_g re_emphasis group1
       (replace_g re_code group1
         (replace_g re_image group1
           (replace_g re_link group1 text)))"

section \<open>The section splitter \<open>parseMarkdownByH1\<close>\<close>

text \<open>
  \<^verbatim>\<open>
  export const parseMarkdownByH1 = (text: string): DocSection[] => {
    const lines = text.split('\n');
    const sections: DocSection[] = [];
    let currentTitle = "Introduction";
    let currentContentLines: string[] = [];
    let sectionIndex = 0;

    const pushSection = () => {
      if (currentContentLines.length > 0 || currentTitle !== "Introduction") {
        const content = currentContentLines.join('\n').trim();
        const raw = `# ${currentTitle}\n\n${content}`;
        sections.push({
          id: `section-${sectionIndex++}`,
          title: currentTitle.replace(/^#\s*/, '').trim(),
          content: content,
          raw: raw
        });
      }
    };

    for (let i = 0; i < lines.length; i++) {
      const line = lines[i];
      if (/^#\s+(.+)/.test(line)) {
        if (sections.length > 0 || currentContentLines.length > 0) {
          pushSection();
        }
        currentTitle = line.replace(/^#\s+/, '').trim();
        currentContentLines = [];
      } else {
        currentContentLines.push(line);
      }
    }

    pushSection();

    if (sections.length > 1 && sections[0].title === "Introduction"
        && sections[0].content === "") {
      sections.shift();
    }
    return sections;
  };
  \<close>
  The fields \<open>id\<close>, \<open>title\<close>, \<open>content\<close> and \<open>raw\<close> of \<open>DocSection\<close> are \<open>sec_id\<close>,
  \<open>sec_title\<close>, \<open>sec_content\<close> and \<open>sec_raw\<close>; \<open>split_all\<close> is the array \<open>sections\<close> before
  the final \<open>shift\<close>.
\<close>

record DocSection =
  sec_id :: jsstring
  sec_title :: jsstring
  sec_content :: jsstring
  sec_raw :: jsstring

text \<open>The variables of \<open>parseMarkdownByH1\<close> that its loop and \<open>pushSection\<close> update.\<close>

record split_state =
  sections :: "DocSection list"
  currentTitle :: jsstring
  currentContentLines :: "jsstring list"
  sectionIndex :: nat

text \<open>\<open>/^#\s+(.+)/\<close>, \<open>/^#\s+/\<close> and \<open>/^#\s*/\<close>.\<close>

definition re_h1 :: "atom list" where
  "re_h1 = [lit CHR ''#'', Rep is_space 1 None False, Rep is_dot 1 None True]"

definition re_h1_prefix :: "atom list" where
  "re_h1_prefix = [lit CHR ''#'', Rep is_space 1 None False]"

definition re_hash_prefix :: "atom list" where
  "re_hash_prefix = [lit CHR ''#'', Rep is_space 0 None False]"

definition pushSection :: "split_state \<Rightarrow> split_state" where
  "pushSection st =
     (if length (currentContentLines st) > 0 \<or> currentTitle st \<noteq> js ''Introduction'' then
        (let content = trim (join_nl (currentContentLines st));
             raw = js ''# '' @ currentTitle st @ js ''\<newline>\<newline>'' @ content
         in st\<lparr>sections := sections st @
                  [\<lparr>sec_id = js ''section-'' @ numToString (sectionIndex st),
                    sec_title = trim (replace_anchored re_hash_prefix (const_str []) (currentTitle st)),
                    sec_content = content,
                    sec_raw = raw\<rparr>],
                sectionIndex := sectionIndex st + 1\<rparr>)
      else st)"

definition split_step :: "split_state \<Rightarrow> jsstring \<Rightarrow> split_state" where
  "split_step st line =
     (if test_anchored re_h1 line then
        (let st' = (if length (sections st) > 0 \<or> length (currentContentLines st) > 0
                    then pushSection st else st)
         in st'\<lparr>currentTitle := trim (replace_anchored re_h1_prefix (const_str []) line),
                currentContentLines := []\<rparr>)
      else st\<lparr>currentContentLines := currentContentLines st @ [line]\<rparr>)"

definition split_init :: split_state where
  "split_init = \<lparr>sections = [], currentTitle = js ''Introduction'',
                  currentContentLines = [], sectionIndex = 0\<rparr>"

definition split_all :: "jsstring \<Rightarrow> DocSection list" where
  "split_all text = sections (pushSection (foldl split_step split_init (split_nl text)))"

definition parseMarkdownByH1 :: "jsstring \<Rightarrow> DocSection list" where
  "parseMarkdownByH1 text =
     (let secs = split_all text
      in if length secs > 1 \<and> sec_title (secs ! 0) = js ''Introduction'' \<and> sec_content (secs ! 0) = []
         then tl secs else secs)"

section \<open>The table-of-contents builder \<open>parseTOC\<close>\<close>

text \<open>
  \<^verbatim>\<open>
  export const parseTOC = (text: string): TocItem[] => {
    const lines = text.split('\n');
    const toc: TocItem[] = [];
    const headerRegex = /^(#{1,3})\s+(.+)$/;
    const slugCounts = new Map<string, number>();

    lines.forEach((line) => {
      const match = line.match(headerRegex);
      if (match) {
        const level = match[1].length;
        const rawTitle = match[2].trim();
        const cleanTitle = cleanMarkdown(rawTitle);
        const rawId = slugify(cleanTitle);
        let id = rawId;
        if (slugCounts.has(rawId)) {
          const count = slugCounts.get(rawId)! + 1;
          slugCounts.set(rawId, count);
          id = `${rawId}-${count}`;
        } else {
          slugCounts.set(rawId, 0);
        }
        toc.push({ id, title: rawTitle, level });
      }
    });
    return toc;
  };
  \<close>
  The fields \<open>id\<close>, \<open>title\<close> and \<open>level\<close> of \<open>TocItem\<close> are \<open>toc_id\<close>, \<open>toc_title\<close> and
  \<open>toc_level\<close>.
\<close>

record TocItem =
  toc_id :: jsstring
  toc_title :: jsstring
  toc_level :: nat

record toc_state =
  toc :: "TocItem list"
  slugCounts :: "jsstring \<rightharpoonup> nat"

text \<open>\<open>/^(#{1,3})\s+(.+)$/\<close>\<close>

definition headerRegex :: "atom list" where
  "headerRegex = [Rep (\<lambda>c. c = chr CHR ''#'') 1 (Some 3) True, Rep is_space 1 None False,
                  Rep is_dot 1 None True, Eos]"

definition toc_step :: "toc_state \<Rightarrow> jsstring \<Rightarrow> toc_state" where
  "toc_step st line =
     (case match_here headerRegex line of
        None \<Rightarrow> st
      | Some (gs, rest) \<Rightarrow>
          (let level = length (gs ! 0);
               rawTitle = trim (gs ! 1);
               cleanTitle = cleanMarkdown rawTitle;
               rawId = slugify cleanTitle
           in (case slugCounts st rawId of
                 Some c \<Rightarrow>
                   (let count = c + 1
                    in \<lparr>toc = toc st @ [\<lparr>toc_id = rawId @ js ''-'' @ numToString count,
                                          toc_title = rawTitle, toc_level = level\<rparr>],
                        slugCounts = (slugCounts st)(rawId \<mapsto> count)\<rparr>)
               | None \<Rightarrow>
                   \<lparr>toc = toc st @ [\<lparr>toc_id = rawId, toc_title = rawTitle, toc_level = level\<rparr>],
                    slugCounts = (slugCounts st)(rawId \<mapsto> 0)\<rparr>)))"

definition parseTOC :: "jsstring \<Rightarrow> TocItem list" where
  "parseTOC text = toc (foldl toc_step \<lparr>toc = [], slugCounts = Map.empty\<rparr> (split_nl text))"

section \<open>The renderer's \<open>getUniqueId\<close>\<close>

text \<open>
  \<^verbatim>\<open>
  const slugCounts = new Map<string, number>();

  const getUniqueId = (text: string): string => {
    const rawId = slugify(text);
    let id = rawId;
    if (slugCounts.has(rawId)) {
      const count = slugCounts.get(rawId)! + 1;
      slugCounts.set(rawId, count);
      id = `${rawId}-${count}`;
    } else {
      slugCounts.set(rawId, 0);
    }
    return id;
  };
  \<close>
\<close>

text \<open>\<open>getUniqueId\<close> reads and updates the map \<open>slugCounts\<close> of its render cycle; the model
  takes the map and returns the id with the updated map.\<close>

definition getUniqueId :: "(jsstring \<rightharpoonup> nat) \<Rightarrow> jsstring \<Rightarrow> jsstring \<times> (jsstring \<rightharpoonup> nat)" where
  "getUniqueId counts text =
     (let rawId = slugify text
      in (case counts rawId of
            Some c \<Rightarrow> (let count = c + 1 in (rawId @ js ''-'' @ numToString count, counts(rawId \<mapsto> count)))
          | None \<Rightarrow> (rawId, counts(rawId \<mapsto> 0))))"

section \<open>Notions used by the statements\<close>

text \<open>The slug that \<open>parseTOC\<close> computed for an entry: the entry keeps the trimmed raw title,
  and \<open>rawId\<close> is \<open>slugify (cleanMarkdown rawTitle)\<close>.\<close>

definition toc_slug :: "TocItem \<Rightarrow> jsstring" where
  "toc_slug it = slugify (cleanMarkdown (toc_title it))"

text \<open>How many of the entries before position \<open>i\<close> have the slug of entry \<open>i\<close>.\<close>

definition earlier_same :: "TocItem list \<Rightarrow> nat \<Rightarrow> nat" where
  "earlier_same items i =
     length (filter (\<lambda>it. toc_slug it = toc_slug (items ! i)) (take i items))"

definition is_hash :: "cu \<Rightarrow> bool" where
  "is_hash c \<longleftrightarrow> c = 0x23"

text \<open>The lines that the two parsers take for headings.\<close>

definition is_h1_line :: "jsstring \<Rightarrow> bool" where
  "is_h1_line line \<longleftrightarrow> test_anchored re_h1 line"

definition is_toc_line :: "jsstring \<Rightarrow> bool" where
  "is_toc_line line \<longleftrightarrow> match_here headerRegex line \<noteq> None"

text \<open>The test under which \<open>parseMarkdownByH1\<close> removes the first section before it returns.\<close>

definition dropped_intro :: "jsstring \<Rightarrow> bool" where
  "dropped_intro text \<longleftrightarrow>
     length (split_all text) > 1 \<and> sec_title (split_all text ! 0) = js ''Introduction'' \<and>
     sec_content (split_all text ! 0) = []"

text \<open>A well-formed UTF-16 string: every code unit has 16 bits, every high surrogate is
  followed by a low surrogate and every low surrogate follows a high one.\<close>

fun wellFormed :: "jsstring \<Rightarrow> bool" where
  "wellFormed [] = True"
| "wellFormed [c] = (c \<le> 0xFFFF \<and> \<not> isHigh c \<and> \<not> isLow c)"
| "wellFormed (h # l # r) =
     (if isHigh h then isLow l \<and> wellFormed r
      else h \<le> 0xFFFF \<and> \<not> isLow h \<and> wellFormed (l # r))"

text \<open>A code point that a well-formed string can hold: of the basic plane and no
  surrogate, or of a supplementary plane.\<close>

definition scalar :: "nat \<Rightarrow> bool" where
  "scalar c \<longleftrightarrow> c \<le> 0xFFFF \<and> \<not> isHigh c \<and> \<not> isLow c \<or> 0x10000 \<le> c \<and> c \<le> 0x10FFFF"

text \<open>A well-formed string whose code points are all mapped to themselves by \<open>lower_cp\<close>.\<close>

fun lowered :: "jsstring \<Rightarrow> bool" where
  "lowered [] = True"
| "lowered [c] = (c \<le> 0xFFFF \<and> \<not> isHigh c \<and> \<not> isLow c \<and> lower_cp c = [c])"
| "lowered (h # l # r) =
     (if isHigh h then isLow l \<and> lower_cp (pair_cp h l) = [pair_cp h l] \<and> lowered r
      else h \<le> 0xFFFF \<and> \<not> isLow h \<and> lower_cp h = [h] \<and> lowered (l # r))"

text \<open>
  Checks of \<open>lower_table\<close> that can be computed. \<open>covers r cp\<close>: entry \<open>r\<close> maps \<open>cp\<close>.
  \<open>sep r q\<close>: no code point that \<open>r\<close> maps to is mapped by \<open>q\<close>, because the two intervals
  are apart or because the code points differ in parity. \<open>check_sep\<close> walks the table and
  compares every entry with its neighbours on both sides, as far as their intervals can
  reach what the entry maps to, and with \<open>U+0130\<close>. \<open>ascending\<close>: the intervals follow one
  another. \<open>range_kind\<close>: an entry maps the basic plane without the surrogates into
  itself, or the supplementary planes into themselves.
\<close>

fun covers :: "case_range \<Rightarrow> nat \<Rightarrow> bool" where
  "covers (lo, hi, st, tlo) cp \<longleftrightarrow> lo \<le> cp \<and> cp \<le> hi \<and> (cp - lo) mod st = 0"

fun sep :: "case_range \<Rightarrow> case_range \<Rightarrow> bool" where
  "sep (lo, hi, st, tlo) (lo', hi', st', tlo') \<longleftrightarrow>
     tlo + (hi - lo) < lo' \<or> hi' < tlo \<or>
     (st' = 2 \<and> (st = 2 \<or> lo = hi) \<and> tlo mod 2 \<noteq> lo' mod 2)"

fun fwd :: "case_range \<Rightarrow> case_range list \<Rightarrow> bool" where
  "fwd r [] = True"
| "fwd (lo, hi, st, tlo) ((lo', hi', st', tlo') # qs) =
     (tlo + (hi - lo) < lo' \<or>
      (sep (lo, hi, st, tlo) (lo', hi', st', tlo') \<and> fwd (lo, hi, st, tlo) qs))"

fun bwd :: "case_range \<Rightarrow> case_range list \<Rightarrow> bool" where
  "bwd r [] = True"
| "bwd (lo, hi, st, tlo) ((lo', hi', st', tlo') # qs) =
     (hi' < tlo \<or>
      (sep (lo, hi, st, tlo) (lo', hi', st', tlo') \<and> bwd (lo, hi, st, tlo) qs))"

fun check_sep :: "case_range list \<Rightarrow> case_range list \<Rightarrow> bool" where
  "check_sep left [] = True"
| "check_sep left (r # right) =
     (fwd r (r # right) \<and> bwd r left \<and> sep r (0x130, 0x130, 1, 0) \<and>
      check_sep (r # left) right)"

fun ascending :: "case_range list \<Rightarrow> bool" where
  "ascending [] = True"
| "ascending [(lo, hi, st, tlo)] = (lo \<le> hi)"
| "ascending ((lo, hi, st, tlo) # (lo', hi', st', tlo') # rs) =
     (lo \<le> hi \<and> hi < lo' \<and> ascending ((lo', hi', st', tlo') # rs))"

fun range_kind :: "case_range \<Rightarrow> bool" where
  "range_kind (lo, hi, st, tlo) \<longleftrightarrow>
     ((hi < 0xD800 \<or> 0xDFFF < lo \<and> hi \<le> 0xFFFF) \<and>
      (tlo + (hi - lo) < 0xD800 \<or> 0xDFFF < tlo \<and> tlo + (hi - lo) \<le> 0xFFFF)) \<or>
     (0x10000 \<le> lo \<and> hi \<le> 0x10FFFF \<and> 0x10000 \<le> tlo \<and> tlo + (hi - lo) \<le> 0x10FFFF)"

text \<open>What a global replacement of \<open>/[p]+/g\<close> by a constant computes: every maximal run of
  code units of the class becomes one copy of the constant.\<close>

function squeeze :: "(cu \<Rightarrow> bool) \<Rightarrow> jsstring \<Rightarrow> jsstring \<Rightarrow> jsstring" where
  "squeeze p r [] = []"
| "squeeze p r (c # cs) =
     (if p c then r @ squeeze p r (dropWhile p cs) else c # squeeze p r cs)"
  by pat_completeness auto
termination
  by (relation "measure (\<lambda>(p, r, s). length s)")
     (auto simp: le_imp_less_Suc length_dropWhile_le)

text \<open>The id of the \<open>i\<close>-th section pushed, and the invariant of the splitter's loop that
  the sections pushed so far carry the ids \<open>section-0\<close>, \<open>section-1\<close>, ... in order.\<close>

definition section_label :: "nat \<Rightarrow> jsstring" where
  "section_label i = js ''section-'' @ numToString i"

definition ids_ok :: "split_state \<Rightarrow> bool" where
  "ids_ok st \<longleftrightarrow> sectionIndex st = length (sections st) \<and>
     map sec_id (sections st) = map section_label [0 ..< length (sections st)]"

text \<open>A section built by \<open>pushSection\<close> from the heading text \<open>T\<close> (the value of
  \<open>currentTitle\<close>), and the invariant of the loop that every section was built so from a
  trimmed heading text.\<close>

definition sec_built :: "jsstring \<Rightarrow> DocSection \<Rightarrow> bool" where
  "sec_built T s \<longleftrightarrow> trim T = T \<and>
     sec_raw s = js ''# '' @ T @ js ''\<newline>\<newline>'' @ sec_content s \<and>
     sec_title s = trim (replace_anchored re_hash_prefix (const_str []) T)"

definition built_ok :: "split_state \<Rightarrow> bool" where
  "built_ok st \<longleftrightarrow> trim (currentTitle st) = currentTitle st \<and>
     (\<forall>s\<in>set (sections st). \<exists>T. sec_built T s)"

text \<open>The id that the disambiguation rule gives entry \<open>i\<close>, the number of entries with a
  given slug, and the invariant of the loop of \<open>parseTOC\<close>: every entry has the id of the
  rule, and \<open>slugCounts\<close> holds for every slug seen its number of occurrences less one.\<close>

definition expected_id :: "TocItem list \<Rightarrow> nat \<Rightarrow> jsstring" where
  "expected_id items i =
     (if earlier_same items i = 0 then toc_slug (items ! i)
      else toc_slug (items ! i) @ js ''-'' @ numToString (earlier_same items i))"

definition occurrences :: "TocItem list \<Rightarrow> jsstring \<Rightarrow> nat" where
  "occurrences items r = length (filter (\<lambda>it. toc_slug it = r) items)"

definition toc_ok :: "toc_state \<Rightarrow> bool" where
  "toc_ok st \<longleftrightarrow>
     (\<forall>i<length (toc st). toc_id (toc st ! i) = expected_id (toc st) i) \<and>
     (\<forall>r. slugCounts st r =
            (if occurrences (toc st) r = 0 then None else Some (occurrences (toc st) r - 1)))"

section \<open>Strings and the matcher\<close>

lemma join_split_nl: "join_nl (split_nl t) = t"
proof (induction t)
  case Nil show ?case by simp
next
  case (Cons c cs)
  show ?case
  proof (cases "split_nl cs")
    case Nil
    with Cons show ?thesis by (cases "c = 10") auto
  next
    case (Cons l ls)
    with Cons.IH show ?thesis by (cases ls) auto
  qed
qed

lemma split_nl_nonempty: "split_nl t \<noteq> []"
  by (induction t) (auto split: list.splits)

lemma trimEnd_prefix: "trimEnd u @ rev (takeWhile is_space (rev u)) = u"
  unfolding trimEnd_def
  by (metis rev_append rev_rev_ident takeWhile_dropWhile_id)

lemma trimStart_trim: "trimStart (trim s) = trim s"
proof (cases "trim s = []")
  case True then show ?thesis by (simp add: trimStart_def)
next
  case False
  let ?u = "trimStart s"
  have u: "trim s @ rev (takeWhile is_space (rev ?u)) = ?u"
    unfolding trim_def by (rule trimEnd_prefix)
  then have "hd (trim s) = hd ?u" using False by (metis hd_append2)
  moreover have "?u \<noteq> []" using u False by auto
  then have "\<not> is_space (hd ?u)" unfolding trimStart_def by (rule hd_dropWhile)
  ultimately show ?thesis unfolding trimStart_def
    by (simp add: dropWhile_eq_self_iff)
qed

lemma trimEnd_trim: "trimEnd (trim s) = trim s"
  by (simp add: trim_def trimEnd_def)

lemma trim_idem: "trim (trim s) = trim s"
  by (metis trim_def trimStart_trim trimEnd_trim)

lemma match_here_lit:
  "match_here (lit ch # as) s =
     (case s of [] \<Rightarrow> None | c # cs \<Rightarrow> if c = chr ch then match_here as cs else None)"
  by (cases s) (auto simp: lit_def greedy_def split: option.splits)

lemma match_here_last_rep:
  "match_here [Rep p lo None False] s =
     (if lo \<le> length (takeWhile p s) then Some ([], dropWhile p s) else None)"
  by (simp add: greedy_def dropWhile_eq_drop)

lemma match_hash_prefix:
  "match_here re_hash_prefix s =
     (case s of [] \<Rightarrow> None | c # cs \<Rightarrow> if c = 0x23 then Some ([], dropWhile is_space cs) else None)"
  unfolding re_hash_prefix_def match_here_lit
  by (simp add: greedy_def dropWhile_eq_drop chr_def split: list.splits)

lemma first_some_None_iff: "first_some f xs = None \<longleftrightarrow> (\<forall>x\<in>set xs. f x = None)"
  by (induction xs) (auto split: option.splits)

lemma le_length_takeWhile_iff:
  "j \<le> length (takeWhile p s) \<longleftrightarrow> j \<le> length s \<and> (\<forall>c\<in>set (take j s). p c)"
proof (induction s arbitrary: j)
  case Nil
  show ?case by simp
next
  case (Cons c cs)
  show ?case by (cases j) (auto simp: Cons.IH)
qed

lemma le_greedy_iff:
  "j \<le> greedy p hi s \<longleftrightarrow>
     j \<le> length s \<and> (\<forall>c\<in>set (take j s). p c) \<and> (case hi of None \<Rightarrow> True | Some m \<Rightarrow> j \<le> m)"
  by (cases hi) (auto simp: greedy_def le_length_takeWhile_iff)

lemma candidates_set: "set (rev [lo ..< Suc g]) = {j. lo \<le> j \<and> j \<le> g}"
  by (auto simp del: upt_Suc)

lemma match_here_accepts: "match_here as s \<noteq> None \<longleftrightarrow> accepts as s"
proof (induction as arbitrary: s)
  case Nil
  show ?case by simp
next
  case (Cons a as)
  show ?case
  proof (cases a)
    case Eos
    then show ?thesis using Cons.IH by simp
  next
    case (Rep p lo hi cap)
    let ?f = "\<lambda>j. case match_here as (drop j s) of None \<Rightarrow> None
                | Some (gs, rest) \<Rightarrow> Some ((if cap then [take j s] else []) @ gs, rest)"
    have f: "?f j = None \<longleftrightarrow> \<not> accepts as (drop j s)" for j
      using Cons.IH [of "drop j s"] by (auto split: option.splits)
    have "match_here (a # as) s = first_some ?f (rev [lo ..< Suc (greedy p hi s)])"
      unfolding Rep by simp
    then have "match_here (a # as) s = None \<longleftrightarrow>
          (\<forall>j. lo \<le> j \<and> j \<le> greedy p hi s \<longrightarrow> \<not> accepts as (drop j s))"
      by (simp only: first_some_None_iff candidates_set f) blast
    then show ?thesis unfolding Rep by (auto simp: le_greedy_iff)
  qed
qed

lemma accepts_RepI:
  "lo \<le> length u \<Longrightarrow> (case hi of None \<Rightarrow> True | Some m \<Rightarrow> length u \<le> m) \<Longrightarrow>
   \<forall>c\<in>set u. p c \<Longrightarrow> accepts as v \<Longrightarrow> accepts (Rep p lo hi cap # as) (u @ v)"
  unfolding accepts.simps by (intro exI [of _ "length u"]) simp

lemma first_some_SomeD: "first_some f xs = Some y \<Longrightarrow> \<exists>x\<in>set xs. f x = Some y"
  by (induction xs) (auto split: option.splits)

lemma match_here_parses: "match_here as s = Some (gs, r) \<Longrightarrow> parses as s gs r"
proof (induction as arbitrary: s gs r)
  case Nil
  then show ?case by simp
next
  case (Cons a as)
  show ?case
  proof (cases a)
    case Eos
    with Cons show ?thesis by (simp split: if_splits)
  next
    case (Rep p lo hi cap)
    let ?f = "\<lambda>j. case match_here as (drop j s) of None \<Rightarrow> None
                | Some (gs, rest) \<Rightarrow> Some ((if cap then [take j s] else []) @ gs, rest)"
    have "first_some ?f (rev [lo ..< Suc (greedy p hi s)]) = Some (gs, r)"
      using Cons.prems unfolding Rep by simp
    then obtain j where j: "j \<in> set (rev [lo ..< Suc (greedy p hi s)])" and f: "?f j = Some (gs, r)"
      by (blast dest: first_some_SomeD)
    from f obtain gs' where m: "match_here as (drop j s) = Some (gs', r)"
      and gs: "gs = (if cap then [take j s] else []) @ gs'"
      by (auto split: option.splits)
    have "parses as (drop j s) gs' r" using m by (rule Cons.IH)
    moreover have "lo \<le> j \<and> j \<le> greedy p hi s" using j unfolding candidates_set by simp
    ultimately show ?thesis unfolding Rep using gs
      by (auto simp: le_greedy_iff intro!: exI [of _ j])
  qed
qed

lemma accepts_lit_mem: "accepts (as1 @ lit ch # as2) s \<Longrightarrow> chr ch \<in> set s"
proof (induction as1 arbitrary: s)
  case Nil
  then obtain j where "1 \<le> j" "j \<le> length s" "\<forall>c\<in>set (take j s). c = chr ch"
    by (auto simp: lit_def)
  then show ?case by (cases s; cases j) auto
next
  case (Cons a as1)
  then obtain j where "accepts (as1 @ lit ch # as2) (drop j s)"
    by (cases a) (auto intro: exI [of _ 0])
  then have "chr ch \<in> set (drop j s)" by (rule Cons.IH)
  then show ?case by (rule in_set_dropD)
qed

lemma match_here_rep_exact:
  assumes u: "\<forall>c\<in>set u. p c" and v: "v = [] \<or> \<not> p (hd v)" and lo: "lo \<le> length u"
    and rest: "match_here as v = Some (gs, r)"
  shows "match_here (Rep p lo None cap # as) (u @ v) = Some ((if cap then [u] else []) @ gs, r)"
proof -
  have "takeWhile p (u @ v) = u"
    using u v by (cases v) (simp_all add: takeWhile_append2 takeWhile_eq_all_conv)
  then have g: "greedy p None (u @ v) = length u" by (simp add: greedy_def)
  have c: "rev [lo ..< Suc (length u)] = length u # rev [lo ..< length u]" using lo by simp
  show ?thesis using rest by (simp add: g c del: upt_Suc)
qed

lemma replace_g_no_match:
  "(\<And>u. set u \<subseteq> set s \<Longrightarrow> match_here re u = None) \<Longrightarrow> replace_g re f s = s"
proof (induction s)
  case Nil
  then show ?case by (simp add: replace_g.simps)
next
  case (Cons c cs)
  have "match_here re (c # cs) = None" by (rule Cons.prems) simp
  moreover have "replace_g re f cs = cs"
    by (rule Cons.IH, rule Cons.prems) auto
  ultimately show ?case by (simp add: replace_g.simps)
qed

lemma replace_g_shrinks:
  assumes m: "\<And>s gs r. match_here re s = Some (gs, r) \<Longrightarrow> length (group1 gs) + 2 + length r \<le> length s"
  shows "length (replace_g re group1 s) = length s \<or> length (replace_g re group1 s) + 2 \<le> length s"
proof (induction s rule: length_induct)
  case (1 s)
  show ?case
  proof (cases s)
    case Nil
    have "match_here re [] = None" using m [of "[]"] by (cases "match_here re []") auto
    then show ?thesis using Nil by (simp add: replace_g.simps)
  next
    case (Cons c cs)
    show ?thesis
    proof (cases "match_here re (c # cs)")
      case None
      have "length (replace_g re group1 cs) = length cs \<or> length (replace_g re group1 cs) + 2 \<le> length cs"
        using "1.IH" Cons by simp
      then show ?thesis using Cons None by (auto simp: replace_g.simps)
    next
      case (Some a)
      obtain gs r where a: "a = (gs, r)" by (cases a)
      have len: "length (group1 gs) + 2 + length r \<le> length s"
        using m [of s gs r] Some a Cons by simp
      then have "length r < length s" by simp
      then have "length (replace_g re group1 r) \<le> length r" using "1.IH" by fastforce
      moreover have "replace_g re group1 s = group1 gs @ replace_g re group1 r"
        using Cons Some a len by (simp add: replace_g.simps)
      ultimately show ?thesis using len by simp
    qed
  qed
qed

section \<open>Identifiers of the two pipelines\<close>

text \<open>
  Claim C1 says that for a heading text with inline emphasis the id of \<open>parseTOC\<close>
  (\<open>cleanMarkdown\<close>, then \<open>slugify\<close>) and the id that the renderer's \<open>getUniqueId\<close> gives to
  the rendered plain text are the same, as \<open>getting-started\<close> for \<open>Getting *Started*\<close>. They
  are the same for that heading, and for \<open>Getting _Started_\<close>, where \<open>slugify\<close> alone would
  keep the underscores. They differ for the heading \<open>*a_b*\<close>: it is rendered as the
  emphasised text \<open>a_b\<close> (an underscore inside a word is no emphasis mark), to which
  \<open>getUniqueId\<close> gives the id \<open>a_b\<close>, while the emphasis pattern of \<open>cleanMarkdown\<close> takes
  \<open>*a_\<close> for a span and leaves \<open>ab*\<close>, so that \<open>parseTOC\<close> gives the id \<open>ab\<close>.
\<close>

theorem cross_pipeline_ids_differ:
  "map toc_id (parseTOC (js ''# Getting *Started*'')) = [js ''getting-started''] \<and>
   map toc_id (parseTOC (js ''# Getting _Started_'')) = [js ''getting-started''] \<and>
   fst (getUniqueId Map.empty (js ''Getting Started'')) = js ''getting-started'' \<and>
   cleanMarkdown (js ''*a_b*'') = js ''ab*'' \<and>
   map toc_id (parseTOC (js ''# *a_b*'')) = [js ''ab''] \<and>
   fst (getUniqueId Map.empty (js ''a_b'')) = js ''a_b''"
  by code_simp

section \<open>Uniqueness of table-of-contents ids\<close>

text \<open>
  Claim C2 says that the ids of the entries returned by \<open>parseTOC\<close> are pairwise distinct
  for every document. For the headings \<open>Intro\<close>, \<open>Intro 1\<close>, \<open>Intro\<close> they are not: the
  second heading has the slug \<open>intro-1\<close> of its own, and the suffixed id of the third
  heading, \<open>intro-1\<close>, is not looked up in \<open>slugCounts\<close> before it is given out.
\<close>

theorem toc_ids_collide:
  "map toc_id (parseTOC (js ''# Intro\<newline># Intro 1\<newline># Intro'')) =
     [js ''intro'', js ''intro-1'', js ''intro-1''] \<and>
   \<not> distinct (map toc_id (parseTOC (js ''# Intro\<newline># Intro 1\<newline># Intro'')))"
  by code_simp

section \<open>The disambiguation sequence\<close>

lemma expected_id_old: "i < length items \<Longrightarrow> expected_id (items @ [x]) i = expected_id items i"
  by (simp add: expected_id_def earlier_same_def nth_append)

lemma expected_id_new:
  "expected_id (items @ [x]) (length items) =
     (if occurrences items (toc_slug x) = 0 then toc_slug x
      else toc_slug x @ js ''-'' @ numToString (occurrences items (toc_slug x)))"
  by (simp add: expected_id_def earlier_same_def occurrences_def)

lemma toc_ok_append:
  assumes ok: "toc_ok st"
    and slug: "toc_slug x = r"
    and id: "toc_id x = (case slugCounts st r of None \<Rightarrow> r
                         | Some c \<Rightarrow> r @ js ''-'' @ numToString (c + 1))"
  shows "toc_ok \<lparr>toc = toc st @ [x],
                 slugCounts = (slugCounts st)(r \<mapsto> (case slugCounts st r of None \<Rightarrow> 0 | Some c \<Rightarrow> c + 1))\<rparr>"
proof -
  have cnt: "slugCounts st r =
      (if occurrences (toc st) r = 0 then None else Some (occurrences (toc st) r - 1))"
    using ok by (simp add: toc_ok_def)
  have new: "toc_id x = expected_id (toc st @ [x]) (length (toc st))"
    unfolding expected_id_new slug id cnt by simp
  have ids: "toc_id ((toc st @ [x]) ! i) = expected_id (toc st @ [x]) i"
    if "i < length (toc st @ [x])" for i
  proof (cases "i < length (toc st)")
    case True
    then show ?thesis using ok by (simp add: toc_ok_def expected_id_old nth_append)
  next
    case False
    with that have "i = length (toc st)" by simp
    then show ?thesis using new by simp
  qed
  have counts: "((slugCounts st)(r \<mapsto> (case slugCounts st r of None \<Rightarrow> 0 | Some c \<Rightarrow> c + 1))) q =
      (if occurrences (toc st @ [x]) q = 0 then None else Some (occurrences (toc st @ [x]) q - 1))"
    for q
  proof (cases "q = r")
    case True
    then show ?thesis unfolding cnt by (simp add: occurrences_def slug)
  next
    case False
    then show ?thesis using ok by (simp add: toc_ok_def occurrences_def slug)
  qed
  show ?thesis unfolding toc_ok_def using ids counts by simp
qed

lemma toc_step_ok: "toc_ok st \<Longrightarrow> toc_ok (toc_step st line)"
proof (cases "match_here headerRegex line")
  case None
  assume "toc_ok st"
  with None show ?thesis by (simp add: toc_step_def)
next
  case (Some m)
  assume ok: "toc_ok st"
  obtain gs rest where m: "match_here headerRegex line = Some (gs, rest)"
    using Some by (cases m) simp
  define title where "title = trim (gs ! 1)"
  define r where "r = slugify (cleanMarkdown title)"
  define x where "x = \<lparr>toc_id = (case slugCounts st r of None \<Rightarrow> r
                                   | Some c \<Rightarrow> r @ js ''-'' @ numToString (c + 1)),
                        toc_title = title, toc_level = length (gs ! 0)\<rparr>"
  have step: "toc_step st line =
      \<lparr>toc = toc st @ [x],
       slugCounts = (slugCounts st)(r \<mapsto> (case slugCounts st r of None \<Rightarrow> 0 | Some c \<Rightarrow> c + 1))\<rparr>"
    unfolding toc_step_def m x_def r_def title_def
    by (simp add: Let_def split: option.split)
  have "toc_slug x = r" by (simp add: x_def toc_slug_def r_def)
  moreover have "toc_id x = (case slugCounts st r of None \<Rightarrow> r
                              | Some c \<Rightarrow> r @ js ''-'' @ numToString (c + 1))"
    by (simp add: x_def)
  ultimately show ?thesis unfolding step by (rule toc_ok_append [OF ok])
qed

lemma foldl_toc_ok: "toc_ok st \<Longrightarrow> toc_ok (foldl toc_step st ls)"
  by (induction ls arbitrary: st) (simp_all add: toc_step_ok)

text \<open>
  Claim C3. The headings \<open>Intro\<close>, \<open>Intro\<close>, \<open>Intro\<close> get the ids \<open>intro\<close>, \<open>intro-1\<close>,
  \<open>intro-2\<close>. In general, an entry whose slug did not occur before gets the bare slug, and
  an entry whose slug occurred \<open>k\<close> times before gets the slug followed by \<open>-k\<close>.
\<close>

theorem toc_disambiguation_sequence:
  "map toc_id (parseTOC (js ''# Intro\<newline># Intro\<newline># Intro'')) =
     [js ''intro'', js ''intro-1'', js ''intro-2''] \<and>
   (\<forall>i<length (parseTOC text).
      toc_id (parseTOC text ! i) =
        (if earlier_same (parseTOC text) i = 0 then toc_slug (parseTOC text ! i)
         else toc_slug (parseTOC text ! i) @ js ''-'' @ numToString (earlier_same (parseTOC text) i)))"
proof
  show "map toc_id (parseTOC (js ''# Intro\<newline># Intro\<newline># Intro'')) =
     [js ''intro'', js ''intro-1'', js ''intro-2'']"
    by code_simp
next
  have "toc_ok \<lparr>toc = [], slugCounts = Map.empty\<rparr>"
    by (simp add: toc_ok_def occurrences_def)
  then have "toc_ok (foldl toc_step \<lparr>toc = [], slugCounts = Map.empty\<rparr> (split_nl text))"
    by (rule foldl_toc_ok)
  then show "\<forall>i<length (parseTOC text).
      toc_id (parseTOC text ! i) =
        (if earlier_same (parseTOC text) i = 0 then toc_slug (parseTOC text ! i)
         else toc_slug (parseTOC text ! i) @ js ''-'' @ numToString (earlier_same (parseTOC text) i))"
    by (simp add: toc_ok_def parseTOC_def expected_id_def)
qed

theorem toc_disambiguation_sequence_witness:
  "(2::nat) < length (parseTOC (js ''# Intro\<newline>## Intro\<newline>text\<newline>### Intro'')) \<and>
   earlier_same (parseTOC (js ''# Intro\<newline>## Intro\<newline>text\<newline>### Intro'')) 2 = 2 \<and>
   toc_slug (parseTOC (js ''# Intro\<newline>## Intro\<newline>text\<newline>### Intro'') ! 2) = js ''intro'' \<and>
   toc_id (parseTOC (js ''# Intro\<newline>## Intro\<newline>text\<newline>### Intro'') ! 2) = js ''intro-2''"
proof -
  let ?t = "js ''# Intro\<newline>## Intro\<newline>text\<newline>### Intro''"
  have a: "(2::nat) < length (parseTOC ?t)" by code_simp
  have b: "earlier_same (parseTOC ?t) 2 = 2" by code_simp
  have c: "toc_slug (parseTOC ?t ! 2) = js ''intro''" by code_simp
  have d: "js ''intro'' @ js ''-'' @ numToString 2 = js ''intro-2''" by code_simp
  from toc_disambiguation_sequence [of ?t] a
  have "toc_id (parseTOC ?t ! 2) =
        (if earlier_same (parseTOC ?t) 2 = 0 then toc_slug (parseTOC ?t ! 2)
         else toc_slug (parseTOC ?t ! 2) @ js ''-'' @ numToString (earlier_same (parseTOC ?t) 2))"
    by blast
  then show ?thesis using a b c d by simp
qed

section \<open>Numbering of the section ids\<close>

lemma pushSection_ids: "ids_ok st \<Longrightarrow> ids_ok (pushSection st)"
  by (simp add: ids_ok_def pushSection_def Let_def section_label_def)

lemma split_step_ids: "ids_ok st \<Longrightarrow> ids_ok (split_step st line)"
  using pushSection_ids [of st]
  by (simp add: split_step_def Let_def ids_ok_def)

lemma foldl_split_ids: "ids_ok st \<Longrightarrow> ids_ok (foldl split_step st ls)"
  by (induction ls arbitrary: st) (simp_all add: split_step_ids)

lemma split_all_ids: "map sec_id (split_all text) = map section_label [0 ..< length (split_all text)]"
proof -
  have "ids_ok split_init" by (simp add: ids_ok_def split_init_def)
  then have "ids_ok (pushSection (foldl split_step split_init (split_nl text)))"
    by (intro pushSection_ids foldl_split_ids)
  then show ?thesis by (simp add: ids_ok_def split_all_def)
qed

lemma parse_cases:
  "parseMarkdownByH1 text = (if dropped_intro text then tl (split_all text) else split_all text)"
  by (simp add: parseMarkdownByH1_def dropped_intro_def Let_def)

text \<open>
  Claim C4 says that the first section returned by \<open>parseMarkdownByH1\<close> always has the id
  \<open>section-0\<close>. For the document of the claim, two empty lines before \<open># A\<close>, the empty
  \<open>Introduction\<close> section took \<open>section-0\<close> when it was pushed and is then dropped; the
  one section returned keeps its id \<open>section-1\<close>.
\<close>

theorem first_id_after_drop:
  "map sec_id (parseMarkdownByH1 (js ''\<newline>\<newline># A\<newline>foo'')) = [js ''section-1''] \<and>
   map sec_title (parseMarkdownByH1 (js ''\<newline>\<newline># A\<newline>foo'')) = [js ''A'']"
  by code_simp

text \<open>
  Claim C4, amended. The sections returned carry consecutive ids in order, starting at
  \<open>section-0\<close> when no section was dropped and at \<open>section-1\<close> when the leading section
  was dropped; so the first section returned has the id \<open>section-0\<close> unless the leading
  section was dropped, and then it has the id \<open>section-1\<close>.
\<close>

theorem section_ids_numbering:
  "map sec_id (parseMarkdownByH1 text) =
     map section_label
       [(if dropped_intro text then 1 else 0) ..<
        (if dropped_intro text then 1 else 0) + length (parseMarkdownByH1 text)] \<and>
   (parseMarkdownByH1 text \<noteq> [] \<longrightarrow>
      sec_id (hd (parseMarkdownByH1 text)) =
        (if dropped_intro text then js ''section-1'' else js ''section-0''))"
proof -
  let ?d = "if dropped_intro text then 1 else 0 :: nat"
  have l0: "section_label 0 = js ''section-0''" by code_simp
  have l1: "section_label (Suc 0) = js ''section-1''" by code_simp
  have all: "map sec_id (parseMarkdownByH1 text) =
     map section_label [?d ..< ?d + length (parseMarkdownByH1 text)]"
  proof (cases "dropped_intro text")
    case False
    then show ?thesis by (simp add: parse_cases split_all_ids)
  next
    case True
    then have n: "length (split_all text) > 1" by (simp add: dropped_intro_def)
    have "map sec_id (tl (split_all text)) = tl (map section_label [0 ..< length (split_all text)])"
      by (simp add: map_tl split_all_ids)
    also have "\<dots> = map section_label [1 ..< length (split_all text)]"
      using n by (subst upt_rec) simp
    also have "length (split_all text) = 1 + length (tl (split_all text))"
      using n by simp
    finally have "map sec_id (tl (split_all text)) =
        map section_label [1 ..< 1 + length (tl (split_all text))]" .
    then show ?thesis using True by (simp only: parse_cases if_True)
  qed
  moreover have "sec_id (hd (parseMarkdownByH1 text)) =
        (if dropped_intro text then js ''section-1'' else js ''section-0'')"
    if ne: "parseMarkdownByH1 text \<noteq> []"
  proof -
    have "sec_id (hd (parseMarkdownByH1 text)) = hd (map sec_id (parseMarkdownByH1 text))"
      using ne by (simp add: hd_map)
    also have "\<dots> = section_label ?d"
      using ne unfolding all by (subst upt_rec) simp
    finally show ?thesis by (simp add: l0 l1)
  qed
  ultimately show ?thesis by blast
qed

theorem section_ids_numbering_witness:
  "parseMarkdownByH1 (js ''\<newline>\<newline># A\<newline>foo'') \<noteq> [] \<and>
   dropped_intro (js ''\<newline>\<newline># A\<newline>foo'') \<and>
   sec_id (hd (parseMarkdownByH1 (js ''\<newline>\<newline># A\<newline>foo''))) = js ''section-1'' \<and>
   parseMarkdownByH1 (js ''# A\<newline>foo'') \<noteq> [] \<and>
   \<not> dropped_intro (js ''# A\<newline>foo'') \<and>
   sec_id (hd (parseMarkdownByH1 (js ''# A\<newline>foo''))) = js ''section-0''"
proof -
  have a: "parseMarkdownByH1 (js ''\<newline>\<newline># A\<newline>foo'') \<noteq> []" by code_simp
  have b: "dropped_intro (js ''\<newline>\<newline># A\<newline>foo'')" by code_simp
  have c: "parseMarkdownByH1 (js ''# A\<newline>foo'') \<noteq> []" by code_simp
  have d: "\<not> dropped_intro (js ''# A\<newline>foo'')" by code_simp
  from section_ids_numbering [of "js ''\<newline>\<newline># A\<newline>foo''"]
       section_ids_numbering [of "js ''# A\<newline>foo''"] a b c d
  show ?thesis by simp
qed

section \<open>Documents without headings\<close>

lemma foldl_split_no_h1:
  "\<forall>l\<in>set ls. \<not> is_h1_line l \<Longrightarrow>
   foldl split_step st ls = st\<lparr>currentContentLines := currentContentLines st @ ls\<rparr>"
  by (induction ls arbitrary: st) (simp_all add: split_step_def is_h1_line_def)

lemma toc_step_no_heading: "\<not> is_toc_line l \<Longrightarrow> toc_step st l = st"
  by (cases "match_here headerRegex l") (simp_all add: toc_step_def is_toc_line_def)

lemma foldl_toc_no_heading:
  "\<forall>l\<in>set ls. \<not> is_toc_line l \<Longrightarrow> foldl toc_step st ls = st"
  by (induction ls arbitrary: st) (simp_all add: toc_step_no_heading)

lemma intro_title: "trim (replace_anchored re_hash_prefix (const_str []) (js ''Introduction'')) = js ''Introduction''"
  by code_simp

text \<open>
  Claim C5 says that a document without a level-1 heading line gives one section
  \<open>Introduction\<close> holding the trimmed document, and an empty table of contents. The
  table of contents is not empty when the document has a heading of level 2 or 3:
\<close>

theorem no_h1_but_toc_entry:
  "split_nl (js ''## Sub'') = [js ''## Sub''] \<and> \<not> is_h1_line (js ''## Sub'') \<and>
   parseTOC (js ''## Sub'') = [\<lparr>toc_id = js ''sub'', toc_title = js ''Sub'', toc_level = 2\<rparr>]"
  by code_simp

text \<open>
  Claim C5, amended. A document none of whose lines is a level-1 heading line gives
  exactly one section: id \<open>section-0\<close>, title \<open>Introduction\<close>, the trimmed document as
  content. A document none of whose lines is a heading line of level 1 to 3 (for
  \<open>parseTOC\<close>) gives the empty table of contents.
\<close>

theorem no_heading_degradation:
  "((\<forall>line\<in>set (split_nl text). \<not> is_h1_line line) \<longrightarrow>
      parseMarkdownByH1 text =
        [\<lparr>sec_id = js ''section-0'', sec_title = js ''Introduction'', sec_content = trim text,
          sec_raw = js ''# Introduction\<newline>\<newline>'' @ trim text\<rparr>]) \<and>
   ((\<forall>line\<in>set (split_nl text). \<not> is_toc_line line) \<longrightarrow> parseTOC text = [])"
proof (intro conjI impI)
  assume h: "\<forall>line\<in>set (split_nl text). \<not> is_h1_line line"
  have n0: "js ''section-'' @ numToString 0 = js ''section-0''" by code_simp
  have raw: "js ''# '' @ js ''Introduction'' @ js ''\<newline>\<newline>'' @ trim text =
             js ''# Introduction\<newline>\<newline>'' @ trim text"
    by (simp add: js_def)
  have "split_all text =
        [\<lparr>sec_id = js ''section-0'', sec_title = js ''Introduction'', sec_content = trim text,
          sec_raw = js ''# Introduction\<newline>\<newline>'' @ trim text\<rparr>]"
    using split_nl_nonempty [of "text"]
    unfolding split_all_def foldl_split_no_h1[OF h]
    by (simp add: pushSection_def split_init_def Let_def join_split_nl intro_title n0 raw)
  then show "parseMarkdownByH1 text =
        [\<lparr>sec_id = js ''section-0'', sec_title = js ''Introduction'', sec_content = trim text,
          sec_raw = js ''# Introduction\<newline>\<newline>'' @ trim text\<rparr>]"
    by (simp add: parseMarkdownByH1_def)
next
  assume "\<forall>line\<in>set (split_nl text). \<not> is_toc_line line"
  then show "parseTOC text = []"
    by (simp add: parseTOC_def foldl_toc_no_heading)
qed

theorem no_heading_degradation_witness:
  "split_nl (js ''just text, no headings'') = [js ''just text, no headings''] \<and>
   \<not> is_h1_line (js ''just text, no headings'') \<and>
   \<not> is_toc_line (js ''just text, no headings'') \<and>
   parseMarkdownByH1 (js ''just text, no headings'') =
     [\<lparr>sec_id = js ''section-0'', sec_title = js ''Introduction'',
       sec_content = js ''just text, no headings'',
       sec_raw = js ''# Introduction\<newline>\<newline>just text, no headings''\<rparr>] \<and>
   parseTOC (js ''just text, no headings'') = []"
proof -
  let ?t = "js ''just text, no headings''"
  have s: "split_nl ?t = [?t]" by code_simp
  have h1: "\<not> is_h1_line ?t" by code_simp
  have h2: "\<not> is_toc_line ?t" by code_simp
  have t: "trim ?t = ?t" by code_simp
  have r: "js ''# Introduction\<newline>\<newline>'' @ ?t = js ''# Introduction\<newline>\<newline>just text, no headings''"
    by (simp add: js_def)
  from no_heading_degradation [of ?t] s h1 h2 t r show ?thesis by simp
qed

section \<open>The field \<open>raw\<close> of a section\<close>

lemma length_trim_le: "length (trim x) \<le> length x"
proof -
  have "length (trim x) \<le> length (dropWhile is_space x)"
    unfolding trim_def trimEnd_def trimStart_def
    by (metis length_dropWhile_le length_rev)
  also have "\<dots> \<le> length x" by (rule length_dropWhile_le)
  finally show ?thesis .
qed

lemma built_raw_iff:
  assumes "sec_built T s"
  shows "sec_raw s = js ''# '' @ sec_title s @ js ''\<newline>\<newline>'' @ sec_content s \<longleftrightarrow>
         take 3 (sec_raw s) \<noteq> js ''# #''"
proof (cases T)
  case Nil
  have "trim [] = []" by (simp add: trim_def trimStart_def trimEnd_def)
  with assms Nil show ?thesis
    by (simp add: sec_built_def replace_anchored_def match_hash_prefix js_def)
next
  case (Cons c cs)
  show ?thesis
  proof (cases "c = 0x23")
    case False
    with assms Cons show ?thesis
      by (simp add: sec_built_def replace_anchored_def match_hash_prefix js_def)
  next
    case True
    have t: "sec_title s = trim (dropWhile is_space cs)"
      using assms Cons True
      by (simp add: sec_built_def replace_anchored_def match_hash_prefix const_str_def)
    have "length (sec_title s) \<le> length cs"
      unfolding t using length_trim_le [of "dropWhile is_space cs"] length_dropWhile_le [of is_space cs]
      by linarith
    then have "length (sec_title s) \<noteq> length T" using Cons by simp
    then have "sec_raw s \<noteq> js ''# '' @ sec_title s @ js ''\<newline>\<newline>'' @ sec_content s"
      using assms by (auto simp: sec_built_def)
    moreover have "take 3 (sec_raw s) = js ''# #''"
      using assms Cons True by (simp add: sec_built_def js_def)
    ultimately show ?thesis by simp
  qed
qed

lemma trim_intro: "trim (js ''Introduction'') = js ''Introduction''"
  by code_simp

lemma pushSection_built: "built_ok st \<Longrightarrow> built_ok (pushSection st)"
  unfolding built_ok_def pushSection_def Let_def
  by (auto simp: sec_built_def)

lemma split_step_built: "built_ok st \<Longrightarrow> built_ok (split_step st line)"
  using pushSection_built [of st]
  by (simp add: split_step_def Let_def built_ok_def trim_idem)

lemma foldl_split_built: "built_ok st \<Longrightarrow> built_ok (foldl split_step st ls)"
  by (induction ls arbitrary: st) (simp_all add: split_step_built)

lemma split_all_built: "s \<in> set (split_all text) \<Longrightarrow> \<exists>T. sec_built T s"
proof -
  have "built_ok split_init" by (simp add: built_ok_def split_init_def trim_intro)
  then have "built_ok (pushSection (foldl split_step split_init (split_nl text)))"
    by (intro pushSection_built foldl_split_built)
  then show "s \<in> set (split_all text) \<Longrightarrow> \<exists>T. sec_built T s"
    by (simp add: built_ok_def split_all_def)
qed

lemma parse_subset: "set (parseMarkdownByH1 text) \<subseteq> set (split_all text)"
  by (cases "split_all text") (auto simp: parse_cases)

text \<open>
  Claim C6 says that \<open>raw\<close> is \<open># \<close>, the title, an empty line and the content, also for
  a heading line like \<open># # Foo\<close>. For that line \<open>raw\<close> keeps the heading text \<open># Foo\<close>,
  while the title loses the second \<open>#\<close> as well:
\<close>

theorem raw_differs_for_hash_title:
  "parseMarkdownByH1 (js ''# # Foo'') =
     [\<lparr>sec_id = js ''section-0'', sec_title = js ''Foo'', sec_content = js '''',
       sec_raw = js ''# # Foo\<newline>\<newline>''\<rparr>] \<and>
   js ''# # Foo\<newline>\<newline>'' \<noteq> js ''# '' @ js ''Foo'' @ js ''\<newline>\<newline>'' @ js ''''"
  by code_simp

text \<open>
  Claim C6, amended. For a section returned by \<open>parseMarkdownByH1\<close>, \<open>raw\<close> is \<open># \<close>,
  the title, an empty line and the content exactly when the heading text does not itself
  begin with \<open>#\<close>, that is when \<open>raw\<close> does not begin with \<open># #\<close>.
\<close>

theorem raw_reconstruction:
  "s \<in> set (parseMarkdownByH1 text) \<Longrightarrow>
   (sec_raw s = js ''# '' @ sec_title s @ js ''\<newline>\<newline>'' @ sec_content s \<longleftrightarrow>
    take 3 (sec_raw s) \<noteq> js ''# #'')"
proof -
  assume "s \<in> set (parseMarkdownByH1 text)"
  then have "s \<in> set (split_all text)" using parse_subset by blast
  then obtain T where "sec_built T s" using split_all_built by blast
  then show ?thesis by (rule built_raw_iff)
qed

theorem raw_reconstruction_witness:
  "\<lparr>sec_id = js ''section-1'', sec_title = js ''B'', sec_content = js ''bar'',
     sec_raw = js ''# B\<newline>\<newline>bar''\<rparr>
     \<in> set (parseMarkdownByH1 (js ''# A\<newline>foo\<newline># B\<newline>bar'')) \<and>
   take 3 (js ''# B\<newline>\<newline>bar'') \<noteq> js ''# #'' \<and>
   js ''# B\<newline>\<newline>bar'' = js ''# '' @ js ''B'' @ js ''\<newline>\<newline>'' @ js ''bar''"
proof -
  let ?s = "\<lparr>sec_id = js ''section-1'', sec_title = js ''B'', sec_content = js ''bar'',
     sec_raw = js ''# B\<newline>\<newline>bar''\<rparr>"
  have m: "?s \<in> set (parseMarkdownByH1 (js ''# A\<newline>foo\<newline># B\<newline>bar''))" by code_simp
  have t: "take 3 (js ''# B\<newline>\<newline>bar'') \<noteq> js ''# #''" by code_simp
  from raw_reconstruction [OF m] m t show ?thesis by simp
qed

section \<open>Cleaning an image title\<close>

text \<open>
  Claim C7 says that \<open>cleanMarkdown\<close> turns a title \<open>![alt](url)\<close> into \<open>alt\<close>. The link
  pattern runs first and already rewrites the part \<open>[alt](url)\<close>, so the image pattern
  finds nothing to match and the exclamation mark stays: \<open>![logo](a.png)\<close> becomes
  \<open>!logo\<close>.
\<close>

theorem image_title_keeps_bang:
  "cleanMarkdown (js ''![logo](a.png)'') = js ''!logo'' \<and>
   cleanMarkdown (js ''![logo](a.png)'') \<noteq> js ''logo''"
  by code_simp

text \<open>
  The same happens to every title \<open>![alt](url)\<close> whose \<open>alt\<close> is not empty and has no
  \<open>]\<close> and whose \<open>url\<close> is not empty and has no \<open>)\<close>: the link pattern leaves \<open>!\<close>
  followed by \<open>alt\<close>, the image pattern finds no \<open>]\<close>, and the last two patterns keep
  the length or take at least two code units away, so the result is never \<open>alt\<close>.
\<close>

lemma image_needs_bracket: "0x5D \<notin> set s \<Longrightarrow> match_here re_image s = None"
proof (rule ccontr)
  assume n: "0x5D \<notin> set s" and "match_here re_image s \<noteq> None"
  then have "accepts re_image s" by (simp only: match_here_accepts)
  then have "accepts ([lit CHR ''!'', lit CHR ''['', Rep (\<lambda>c. c \<noteq> chr CHR '']'') 0 None True] @
                lit CHR '']'' # [lit CHR ''('', Rep (\<lambda>c. c \<noteq> chr CHR '')'') 1 None False,
               lit CHR '')'']) s"
    by (simp only: re_image_def append.simps)
  then have "chr CHR '']'' \<in> set s" by (rule accepts_lit_mem)
  with n show False by (simp add: chr_def)
qed

lemma link_on_image:
  assumes alt: "alt \<noteq> []" "0x5D \<notin> set alt" and url: "url \<noteq> []" "0x29 \<notin> set url"
  shows "match_here re_link (0x5B # alt @ 0x5D # 0x28 # url @ [0x29]) = Some ([alt], [])"
proof -
  let ?close = "[lit CHR '')'']"
  let ?url = "Rep (\<lambda>c. c \<noteq> chr CHR '')'') 1 None False # ?close"
  let ?mid = "lit CHR '']'' # lit CHR ''('' # ?url"
  let ?alt = "Rep (\<lambda>c. c \<noteq> chr CHR '']'') 1 None True # ?mid"
  have a4: "match_here ?close [0x29] = Some ([], [])"
    by (simp add: match_here_lit chr_def del: match_here.simps(2))
  have "match_here ?url (url @ [0x29]) = Some ((if False then [url] else []) @ [], [])"
  proof (rule match_here_rep_exact [OF _ _ _ a4])
    show "\<forall>c\<in>set url. c \<noteq> chr CHR '')''" using url(2) by (auto simp: chr_def)
    show "[0x29] = [] \<or> \<not> hd [0x29] \<noteq> chr CHR '')''" by (simp add: chr_def)
    show "1 \<le> length url" using url(1) by (simp add: Suc_le_eq)
  qed
  then have a3: "match_here ?url (url @ [0x29]) = Some ([], [])" by (simp only: if_False append_Nil)
  have a2: "match_here ?mid (0x5D # 0x28 # url @ [0x29]) = Some ([], [])"
    unfolding match_here_lit using a3 by (simp add: chr_def del: match_here.simps)
  have "match_here ?alt (alt @ 0x5D # 0x28 # url @ [0x29]) = Some ((if True then [alt] else []) @ [], [])"
  proof (rule match_here_rep_exact [OF _ _ _ a2])
    show "\<forall>c\<in>set alt. c \<noteq> chr CHR '']''" using alt(2) by (auto simp: chr_def)
    show "0x5D # 0x28 # url @ [0x29] = [] \<or> \<not> hd (0x5D # 0x28 # url @ [0x29]) \<noteq> chr CHR '']''"
      by (simp add: chr_def)
    show "1 \<le> length alt" using alt(1) by (simp add: Suc_le_eq)
  qed
  then have a1: "match_here ?alt (alt @ 0x5D # 0x28 # url @ [0x29]) = Some ([alt], [])"
    by (simp only: if_True append_Nil2)
  show ?thesis
    unfolding re_link_def match_here_lit using a1 by (simp add: chr_def del: match_here.simps)
qed

lemma link_step_on_image:
  assumes alt: "alt \<noteq> []" "0x5D \<notin> set alt" and url: "url \<noteq> []" "0x29 \<notin> set url"
  shows "replace_g re_link group1 (0x21 # 0x5B # alt @ 0x5D # 0x28 # url @ [0x29]) = 0x21 # alt"
proof -
  have n: "match_here re_link (0x21 # 0x5B # alt @ 0x5D # 0x28 # url @ [0x29]) = None"
    unfolding re_link_def match_here_lit by (simp add: chr_def)
  have e: "match_here re_link [] = None"
    unfolding re_link_def match_here_lit by simp
  show ?thesis
    by (simp add: replace_g.simps n e link_on_image [OF assms] group1_def del: match_here.simps)
qed

lemma image_step_after_link: "0x5D \<notin> set alt \<Longrightarrow> replace_g re_image group1 (0x21 # alt) = 0x21 # alt"
  by (rule replace_g_no_match, rule image_needs_bracket) auto

lemma code_consumes:
  "match_here re_code s = Some (gs, r) \<Longrightarrow> length (group1 gs) + 2 + length r \<le> length s"
proof -
  assume "match_here re_code s = Some (gs, r)"
  then have "parses re_code s gs r" by (rule match_here_parses)
  then show ?thesis
    by (auto simp: re_code_def lit_def group1_def split: list.splits)
qed

lemma emphasis_consumes:
  "match_here re_emphasis s = Some (gs, r) \<Longrightarrow> length (group1 gs) + 2 + length r \<le> length s"
proof -
  assume "match_here re_emphasis s = Some (gs, r)"
  then have "parses re_emphasis s gs r" by (rule match_here_parses)
  then show ?thesis
    by (auto simp: re_emphasis_def group1_def split: list.splits)
qed

lemma image_title_never_alt:
  assumes alt: "alt \<noteq> []" "0x5D \<notin> set alt" and url: "url \<noteq> []" "0x29 \<notin> set url"
  shows "cleanMarkdown (js ''!['' @ alt @ js ''](''  @ url @ js '')'') \<noteq> alt"
proof -
  have t: "js ''!['' @ alt @ js ''](''  @ url @ js '')'' = 0x21 # 0x5B # alt @ 0x5D # 0x28 # url @ [0x29]"
    by (simp add: js_def)
  define c where "c = replace_g re_code group1 (0x21 # alt)"
  have r: "cleanMarkdown (js ''!['' @ alt @ js ''](''  @ url @ js '')'') = replace_g re_emphasis group1 c"
    unfolding cleanMarkdown_def t link_step_on_image [OF assms] image_step_after_link [OF alt(2)] c_def ..
  have "length c = length (0x21 # alt) \<or> length c + 2 \<le> length (0x21 # alt)"
    unfolding c_def by (rule replace_g_shrinks, rule code_consumes)
  moreover have "length (replace_g re_emphasis group1 c) = length c \<or>
      length (replace_g re_emphasis group1 c) + 2 \<le> length c"
    by (rule replace_g_shrinks, rule emphasis_consumes)
  ultimately have "length (replace_g re_emphasis group1 c) \<noteq> length alt" by auto
  then show ?thesis unfolding r by auto
qed

section \<open>Idempotence of \<open>slugify\<close>\<close>

subsection \<open>The two replacements of \<open>slugify\<close>\<close>

lemma match_here_single:
  "match_here [Rep p (Suc 0) None False] s =
     (case s of [] \<Rightarrow> None | c # cs \<Rightarrow> if p c then Some ([], dropWhile p cs) else None)"
  by (cases s) (simp_all add: greedy_def dropWhile_eq_drop)

lemma replace_g_single: "replace_g [Rep p (Suc 0) None False] (const_str r) s = squeeze p r s"
proof (induction p r s rule: squeeze.induct)
  case (1 p r)
  show ?case by (simp add: replace_g.simps match_here_single del: match_here.simps)
next
  case (2 p r c cs)
  then show ?case
    by (simp add: replace_g.simps match_here_single const_str_def length_dropWhile_le del: match_here.simps)
qed

lemma squeeze_id: "\<forall>c\<in>set s. \<not> p c \<Longrightarrow> squeeze p r s = s"
  by (induction s) simp_all

lemma filter_dropWhile_not: "filter (\<lambda>c. \<not> p c) (dropWhile p cs) = filter (\<lambda>c. \<not> p c) cs"
  by (induction cs) simp_all

lemma squeeze_filter: "squeeze p [] s = filter (\<lambda>c. \<not> p c) s"
  by (induction p "[] :: jsstring" s rule: squeeze.induct) (simp_all add: filter_dropWhile_not)

lemma set_squeeze: "set (squeeze p r s) \<subseteq> set r \<union> {c \<in> set s. \<not> p c}"
proof (induction p r s rule: squeeze.induct)
  case (1 p r) show ?case by simp
next
  case (2 p r c cs)
  have "set (dropWhile p cs) \<subseteq> set cs" by (rule set_dropWhileD [THEN subsetI])
  with 2 show ?case by auto
qed

subsection \<open>The case table\<close>

text \<open>The three checks of \<open>lower_table\<close>, by computation.\<close>

lemma lower_table_check: "check_sep [] lower_table"
  by code_simp

lemma lower_table_ascending: "ascending lower_table"
  by code_simp

lemma lower_table_kind: "list_all range_kind lower_table"
  by code_simp

lemma lookup_lower_Some:
  "lookup_lower cp rs = Some t \<Longrightarrow>
   \<exists>lo hi st tlo. (lo, hi, st, tlo) \<in> set rs \<and> covers (lo, hi, st, tlo) cp \<and> t = tlo + (cp - lo)"
proof (induction cp rs rule: lookup_lower.induct)
  case (1 cp)
  then show ?case by simp
next
  case (2 cp lo hi st tlo rs)
  show ?case
  proof (cases "cp < lo")
    case True
    with 2 show ?thesis by simp
  next
    case False
    show ?thesis
    proof (cases "cp \<le> hi \<and> (cp - lo) mod st = 0")
      case True
      with False "2.prems" have "(lo, hi, st, tlo) \<in> set ((lo, hi, st, tlo) # rs) \<and>
          covers (lo, hi, st, tlo) cp \<and> t = tlo + (cp - lo)" by auto
      then show ?thesis by blast
    next
      case no: False
      with False "2.prems" have "lookup_lower cp rs = Some t" by auto
      from "2.IH" [OF False no this] obtain a b c d where
        "(a, b, c, d) \<in> set rs" "covers (a, b, c, d) cp" "t = d + (cp - a)" by blast
      then have "(a, b, c, d) \<in> set ((lo, hi, st, tlo) # rs) \<and> covers (a, b, c, d) cp \<and> t = d + (cp - a)"
        by simp
      then show ?thesis by blast
    qed
  qed
qed

lemma lookup_lower_None: "\<forall>q\<in>set rs. \<not> covers q t \<Longrightarrow> lookup_lower t rs = None"
  by (induction t rs rule: lookup_lower.induct) auto

lemma sep_sound:
  assumes s: "sep (lo, hi, st, tlo) (lo', hi', st', tlo')" and c: "covers (lo, hi, st, tlo) cp"
  shows "\<not> covers (lo', hi', st', tlo') (tlo + (cp - lo))"
proof
  define t where "t = tlo + (cp - lo)"
  assume "covers (lo', hi', st', tlo') (tlo + (cp - lo))"
  then have q: "lo' \<le> t" "t \<le> hi'" "(t - lo') mod st' = 0" unfolding t_def by simp_all
  from c have c': "lo \<le> cp" "cp \<le> hi" "(cp - lo) mod st = 0" by simp_all
  have b: "tlo \<le> t" "t \<le> tlo + (hi - lo)" unfolding t_def using c' by simp_all
  have p: "t mod 2 = tlo mod 2" if "st = 2 \<or> lo = hi"
  proof -
    from that c' have "(cp - lo) mod 2 = 0" by auto
    moreover have "(tlo + (cp - lo)) mod 2 = (tlo + (cp - lo) mod 2) mod 2"
      by (simp only: mod_add_right_eq)
    ultimately show ?thesis unfolding t_def by simp
  qed
  from s have "tlo + (hi - lo) < lo' \<or> hi' < tlo \<or>
     (st' = 2 \<and> (st = 2 \<or> lo = hi) \<and> tlo mod 2 \<noteq> lo' mod 2)" by simp
  then consider (far) "tlo + (hi - lo) < lo'" | (near) "hi' < tlo"
    | (parity) "st' = 2" "st = 2 \<or> lo = hi" "tlo mod 2 \<noteq> lo' mod 2"
    by blast
  then show False
  proof cases
    case far
    with b q show False by linarith
  next
    case near
    with b q show False by linarith
  next
    case parity
    from q(3) parity(1) have "(t - lo') mod 2 = 0" by simp
    moreover have "(lo' + (t - lo')) mod 2 = (lo' + (t - lo') mod 2) mod 2"
      by (simp only: mod_add_right_eq)
    moreover have "lo' + (t - lo') = t" using q(1) by simp
    ultimately have "t mod 2 = lo' mod 2" by simp
    with p [OF parity(2)] parity(3) show False by simp
  qed
qed

lemma ascending_sorted:
  "ascending rs \<Longrightarrow>
   sorted_wrt (\<lambda>a b. fst (snd a) < fst b) rs \<and> (\<forall>r\<in>set rs. fst r \<le> fst (snd r))"
proof (induction rs rule: ascending.induct)
  case 1
  show ?case by simp
next
  case (2 lo hi st tlo)
  then show ?case by simp
next
  case (3 lo hi st tlo lo' hi' st' tlo' rs)
  then have a: "lo \<le> hi" "hi < lo'" and r: "ascending ((lo', hi', st', tlo') # rs)" by simp_all
  from "3.IH" [OF r] have s: "sorted_wrt (\<lambda>a b. fst (snd a) < fst b) ((lo', hi', st', tlo') # rs)"
    and l: "\<forall>r\<in>set ((lo', hi', st', tlo') # rs). fst r \<le> fst (snd r)" by simp_all
  have "hi < fst b" if "b \<in> set rs" for b
  proof -
    from s that have "hi' < fst b" by simp
    moreover from l have "lo' \<le> hi'" by simp
    ultimately show ?thesis using a by simp
  qed
  then show ?case using a s l by auto
qed

lemma fwd_sound:
  "sorted_wrt (\<lambda>a b. fst (snd a) < fst b) qs \<Longrightarrow> \<forall>q\<in>set qs. fst q \<le> fst (snd q) \<Longrightarrow>
   fwd r qs \<Longrightarrow> q \<in> set qs \<Longrightarrow> sep r q"
proof (induction r qs rule: fwd.induct)
  case (1 r)
  then show ?case by simp
next
  case (2 lo hi st tlo lo' hi' st' tlo' qs)
  show ?case
  proof (cases "tlo + (hi - lo) < lo'")
    case True
    obtain a b c d where q: "q = (a, b, c, d)" by (cases q)
    have "lo' \<le> a"
    proof (cases "q = (lo', hi', st', tlo')")
      case True
      with q show ?thesis by simp
    next
      case False
      with "2.prems"(4) have "q \<in> set qs" by simp
      with "2.prems"(1) have "hi' < a" using q by auto
      moreover from "2.prems"(2) have "lo' \<le> hi'" by simp
      ultimately show ?thesis by simp
    qed
    with True q show ?thesis by simp
  next
    case False
    with "2.prems"(3) have s: "sep (lo, hi, st, tlo) (lo', hi', st', tlo')"
      and f: "fwd (lo, hi, st, tlo) qs" by simp_all
    show ?thesis
    proof (cases "q = (lo', hi', st', tlo')")
      case True
      with s show ?thesis by simp
    next
      case no: False
      with "2.prems"(4) have "q \<in> set qs" by simp
      with "2.IH" "2.prems"(1,2) s f show ?thesis by simp
    qed
  qed
qed

lemma bwd_sound:
  "sorted_wrt (\<lambda>a b. fst (snd b) < fst a) qs \<Longrightarrow> \<forall>q\<in>set qs. fst q \<le> fst (snd q) \<Longrightarrow>
   bwd r qs \<Longrightarrow> q \<in> set qs \<Longrightarrow> sep r q"
proof (induction r qs rule: bwd.induct)
  case (1 r)
  then show ?case by simp
next
  case (2 lo hi st tlo lo' hi' st' tlo' qs)
  show ?case
  proof (cases "hi' < tlo")
    case True
    obtain a b c d where q: "q = (a, b, c, d)" by (cases q)
    have "b \<le> hi'"
    proof (cases "q = (lo', hi', st', tlo')")
      case True
      with q show ?thesis by simp
    next
      case False
      with "2.prems"(4) have m: "q \<in> set qs" by simp
      with "2.prems"(1) have "b < lo'" using q by auto
      moreover from "2.prems"(2) have "lo' \<le> hi'" by simp
      ultimately show ?thesis by simp
    qed
    with True q show ?thesis by simp
  next
    case False
    with "2.prems"(3) have s: "sep (lo, hi, st, tlo) (lo', hi', st', tlo')"
      and f: "bwd (lo, hi, st, tlo) qs" by simp_all
    show ?thesis
    proof (cases "q = (lo', hi', st', tlo')")
      case True
      with s show ?thesis by simp
    next
      case no: False
      with "2.prems"(4) have "q \<in> set qs" by simp
      with "2.IH" "2.prems"(1,2) s f show ?thesis by simp
    qed
  qed
qed

lemma check_sep_sound:
  "sorted_wrt (\<lambda>a b. fst (snd a) < fst b) (rev left @ right) \<Longrightarrow>
   \<forall>q\<in>set left \<union> set right. fst q \<le> fst (snd q) \<Longrightarrow>
   check_sep left right \<Longrightarrow> r \<in> set right \<Longrightarrow>
   (\<forall>q\<in>set left \<union> set right. sep r q) \<and> sep r (0x130, 0x130, 1, 0)"
proof (induction left right rule: check_sep.induct)
  case (1 left)
  then show ?case by simp
next
  case (2 left x right)
  from "2.prems"(1) have sa: "sorted_wrt (\<lambda>a b. fst (snd a) < fst b) (x # right)"
    and sb: "sorted_wrt (\<lambda>a b. fst (snd b) < fst a) left"
    by (simp_all add: sorted_wrt_append sorted_wrt_rev)
  from "2.prems"(3) have f: "fwd x (x # right)" and b: "bwd x left"
    and i: "sep x (0x130, 0x130, 1, 0)" and c: "check_sep (x # left) right" by simp_all
  show ?case
  proof (cases "r = x")
    case True
    have "sep x q" if "q \<in> set (x # right)" for q
      using fwd_sound [OF sa _ f that] "2.prems"(2) by auto
    moreover have "sep x q" if "q \<in> set left" for q
      using bwd_sound [OF sb _ b that] "2.prems"(2) by auto
    ultimately show ?thesis using True i by auto
  next
    case False
    with "2.prems"(4) have "r \<in> set right" by simp
    moreover have "sorted_wrt (\<lambda>a b. fst (snd a) < fst b) (rev (x # left) @ right)"
      using "2.prems"(1) by simp
    moreover have "\<forall>q\<in>set (x # left) \<union> set right. fst q \<le> fst (snd q)"
      using "2.prems"(2) by auto
    ultimately have "(\<forall>q\<in>set (x # left) \<union> set right. sep r q) \<and> sep r (0x130, 0x130, 1, 0)"
      using "2.IH" c by blast
    then show ?thesis by auto
  qed
qed

lemma lower_table_sep:
  assumes "r \<in> set lower_table"
  shows "(\<forall>q\<in>set lower_table. sep r q) \<and> sep r (0x130, 0x130, 1, 0)"
proof -
  from ascending_sorted [OF lower_table_ascending]
  have s: "sorted_wrt (\<lambda>a b. fst (snd a) < fst b) (rev [] @ lower_table)"
    and l: "\<forall>q\<in>set [] \<union> set lower_table. fst q \<le> fst (snd q)" by simp_all
  from check_sep_sound [OF s l lower_table_check assms] show ?thesis by simp
qed

lemma lookup_lower_stable:
  assumes "lookup_lower cp lower_table = Some t"
  shows "lookup_lower t lower_table = None \<and> t \<noteq> 0x130"
proof -
  from lookup_lower_Some [OF assms] obtain lo hi st tlo where
    r: "(lo, hi, st, tlo) \<in> set lower_table" and c: "covers (lo, hi, st, tlo) cp"
    and t: "t = tlo + (cp - lo)" by blast
  from lower_table_sep [OF r] have a: "\<forall>q\<in>set lower_table. sep (lo, hi, st, tlo) q"
    and b: "sep (lo, hi, st, tlo) (0x130, 0x130, 1, 0)" by simp_all
  have "\<forall>q\<in>set lower_table. \<not> covers q t"
  proof
    fix q assume "q \<in> set lower_table"
    with a have "sep (lo, hi, st, tlo) q" by simp
    then show "\<not> covers q t" unfolding t using c
      by (cases q) (simp add: sep_sound del: sep.simps covers.simps)
  qed
  then have "lookup_lower t lower_table = None" by (rule lookup_lower_None)
  moreover have "\<not> covers (0x130, 0x130, 1, 0) t" unfolding t using b c by (rule sep_sound)
  then have "t \<noteq> 0x130" by (cases "t = 0x130") simp_all
  ultimately show ?thesis by simp
qed

lemma lower_cp_stable: "c \<in> set (lower_cp cp) \<Longrightarrow> lower_cp c = [c]"
proof -
  assume c: "c \<in> set (lower_cp cp)"
  have i: "lower_cp 0x69 = [0x69]" "lower_cp 0x307 = [0x307]" by code_simp+
  show ?thesis
  proof (cases "cp = 0x130")
    case True
    with c i show ?thesis by (auto simp: lower_cp_def)
  next
    case False
    show ?thesis
    proof (cases "lookup_lower cp lower_table")
      case None
      with c False show ?thesis by (simp add: lower_cp_def)
    next
      case (Some t)
      with c False have "c = t" by (simp add: lower_cp_def)
      with lookup_lower_stable [OF Some] show ?thesis by (simp add: lower_cp_def)
    qed
  qed
qed

lemma lookup_lower_kind:
  assumes "lookup_lower cp lower_table = Some t"
  shows "(cp \<le> 0xFFFF \<and> \<not> isHigh cp \<and> \<not> isLow cp \<longrightarrow> t \<le> 0xFFFF \<and> \<not> isHigh t \<and> \<not> isLow t) \<and>
         (0x10000 \<le> cp \<longrightarrow> 0x10000 \<le> t \<and> t \<le> 0x10FFFF)"
proof -
  from lookup_lower_Some [OF assms] obtain lo hi st tlo where
    r: "(lo, hi, st, tlo) \<in> set lower_table" and c: "covers (lo, hi, st, tlo) cp"
    and t: "t = tlo + (cp - lo)" by blast
  have k: "range_kind (lo, hi, st, tlo)"
    using lower_table_kind r unfolding list_all_iff by blast
  from c have b: "lo \<le> cp" "cp \<le> hi" by simp_all
  then have tb: "tlo \<le> t" "t \<le> tlo + (hi - lo)" unfolding t by simp_all
  from k b tb show ?thesis by (auto simp: isHigh_def isLow_def)
qed

lemma lower_cp_scalar: "scalar cp \<Longrightarrow> c \<in> set (lower_cp cp) \<Longrightarrow> scalar c"
proof -
  assume s: "scalar cp" and c: "c \<in> set (lower_cp cp)"
  have i: "scalar 0x69" "scalar 0x307" by code_simp+
  show ?thesis
  proof (cases "cp = 0x130")
    case True
    with c i show ?thesis by (auto simp: lower_cp_def)
  next
    case False
    show ?thesis
    proof (cases "lookup_lower cp lower_table")
      case None
      with c False s show ?thesis by (simp add: lower_cp_def)
    next
      case (Some t)
      with c False have "c = t" by (simp add: lower_cp_def)
      with lookup_lower_kind [OF Some] s show ?thesis by (auto simp: scalar_def)
    qed
  qed
qed

subsection \<open>Surrogate pairs\<close>

lemma pair_cp_range:
  "isHigh h \<Longrightarrow> isLow l \<Longrightarrow> 0x10000 \<le> pair_cp h l \<and> pair_cp h l \<le> 0x10FFFF"
  by (auto simp: pair_cp_def isHigh_def isLow_def)

lemma cp_units_pair:
  assumes "isHigh h" "isLow l"
  shows "cp_units (pair_cp h l) = [h, l]"
proof -
  define a where "a = h - 0xD800"
  define b where "b = l - 0xDC00"
  have h: "h = 0xD800 + a" and l: "l = 0xDC00 + b" and b: "b < 0x400"
    using assms by (auto simp: a_def b_def isHigh_def isLow_def)
  have p: "pair_cp h l = 0x10000 + (a * 0x400 + b)"
    by (simp add: pair_cp_def h l)
  have "(a * 0x400 + b) div 0x400 = a" and "(a * 0x400 + b) mod 0x400 = b"
    using b by simp_all
  then show ?thesis unfolding p by (simp add: cp_units_def h l)
qed

lemma cp_units_astral:
  assumes "0x10000 \<le> c" "c \<le> 0x10FFFF"
  shows "\<exists>h l. cp_units c = [h, l] \<and> isHigh h \<and> isLow l \<and> pair_cp h l = c"
proof -
  let ?h = "0xD800 + (c - 0x10000) div 0x400" and ?l = "0xDC00 + (c - 0x10000) mod 0x400"
  have "cp_units c = [?h, ?l]" using assms by (simp add: cp_units_def)
  moreover have "isHigh ?h" using assms by (simp add: isHigh_def) 
  moreover have "isLow ?l" by (simp add: isLow_def)
  moreover have "pair_cp ?h ?l = c" using assms by (simp add: pair_cp_def)
  ultimately show ?thesis by blast
qed

lemma space_bmp: "is_space c \<Longrightarrow> c \<le> 0xFFFF \<and> \<not> isHigh c \<and> \<not> isLow c"
  by (auto simp: is_space_def isWhiteSpace_def isLineTerminator_def isHigh_def isLow_def)

lemma surrogate_keep: "isHigh c \<or> isLow c \<Longrightarrow> slug_keep c"
  by (auto simp: slug_keep_def isHigh_def isLow_def)

lemma surrogate_not_space: "isHigh c \<or> isLow c \<Longrightarrow> \<not> is_space c"
  using space_bmp by blast

lemma lowered_bmp_Cons:
  "\<not> isHigh c \<Longrightarrow>
   lowered (c # s) \<longleftrightarrow> c \<le> 0xFFFF \<and> \<not> isLow c \<and> lower_cp c = [c] \<and> lowered s"
  by (cases s) auto

lemma lowered_high_Cons:
  "isHigh h \<Longrightarrow>
   lowered (h # s) \<longleftrightarrow>
     (\<exists>l r. s = l # r \<and> isLow l \<and> lower_cp (pair_cp h l) = [pair_cp h l] \<and> lowered r)"
  by (cases s) (auto simp: isHigh_def)

lemma lowered_units:
  assumes "scalar c"
  shows "lowered (cp_units c @ s) \<longleftrightarrow> lower_cp c = [c] \<and> lowered s"
proof (cases "c \<le> 0xFFFF")
  case True
  with assms have b: "\<not> isHigh c" "\<not> isLow c" by (auto simp: scalar_def)
  from True have "cp_units c = [c]" by (simp add: cp_units_def)
  then show ?thesis using True b by (simp add: lowered_bmp_Cons)
next
  case False
  with assms have "0x10000 \<le> c" "c \<le> 0x10FFFF" by (auto simp: scalar_def)
  from cp_units_astral [OF this] obtain h l where
    "cp_units c = [h, l]" "isHigh h" "isLow l" "pair_cp h l = c" by blast
  then show ?thesis by simp
qed

subsection \<open>Lower-cased strings stay lower-cased\<close>

lemma codePoints_scalar: "wellFormed t \<Longrightarrow> c \<in> set (codePoints t) \<Longrightarrow> scalar c"
proof (induction t rule: codePoints.induct)
  case 1
  then show ?case by simp
next
  case (2 u)
  then show ?case by (simp add: scalar_def)
next
  case (3 h l r)
  show ?case
  proof (cases "isHigh h")
    case True
    with "3.prems"(1) have l: "isLow l" and r: "wellFormed r" by simp_all
    from "3.prems"(2) True l have "c = pair_cp h l \<or> c \<in> set (codePoints r)" by simp
    then show ?thesis
    proof
      assume "c = pair_cp h l"
      with pair_cp_range [OF True l] show ?thesis by (simp add: scalar_def)
    next
      assume "c \<in> set (codePoints r)"
      with "3.IH"(1) True l r show ?thesis by simp
    qed
  next
    case False
    with "3.prems"(1) have h: "h \<le> 0xFFFF" "\<not> isLow h" and r: "wellFormed (l # r)" by simp_all
    from "3.prems"(2) False have "c = h \<or> c \<in> set (codePoints (l # r))" by simp
    then show ?thesis
    proof
      assume "c = h"
      with h False show ?thesis by (simp add: scalar_def)
    next
      assume "c \<in> set (codePoints (l # r))"
      with "3.IH"(2) False r show ?thesis by simp
    qed
  qed
qed

lemma lower_seq_stable:
  "\<forall>c\<in>set cps. scalar c \<Longrightarrow> c' \<in> set (lower_seq pre cps) \<Longrightarrow> scalar c' \<and> lower_cp c' = [c']"
proof (induction cps arbitrary: pre)
  case Nil
  then show ?case by simp
next
  case (Cons c cps)
  have sigma: "scalar 0x3C2" "lower_cp 0x3C2 = [0x3C2]" "scalar 0x3C3" "lower_cp 0x3C3 = [0x3C3]"
    by code_simp+
  from Cons.prems(2) consider
      (head) "c' \<in> set (if c = 0x3A3 then [if final_sigma pre cps then 0x3C2 else 0x3C3] else lower_cp c)"
    | (tail) "c' \<in> set (lower_seq (c # pre) cps)"
    by auto
  then show ?case
  proof cases
    case head
    show ?thesis
    proof (cases "c = 0x3A3")
      case True
      with head sigma show ?thesis by (auto split: if_splits)
    next
      case False
      with head have m: "c' \<in> set (lower_cp c)" by simp
      from Cons.prems(1) have "scalar c" by simp
      then show ?thesis using m by (simp add: lower_cp_scalar lower_cp_stable)
    qed
  next
    case tail
    with Cons.IH Cons.prems(1) show ?thesis by simp
  qed
qed

lemma lowered_encode:
  "\<forall>c\<in>set cps. scalar c \<and> lower_cp c = [c] \<Longrightarrow> lowered (concat (map cp_units cps))"
  by (induction cps) (simp_all add: lowered_units)

lemma toLowerCase_wellFormed: "wellFormed t \<Longrightarrow> lowered (toLowerCase t)"
proof -
  assume wf: "wellFormed t"
  have "\<forall>c\<in>set (codePoints t). scalar c" using wf by (blast intro: codePoints_scalar)
  then have "\<forall>c\<in>set (lower_seq [] (codePoints t)). scalar c \<and> lower_cp c = [c]"
    by (blast dest: lower_seq_stable)
  then show ?thesis unfolding toLowerCase_def by (rule lowered_encode)
qed

lemma codePoints_lowered:
  "lowered s \<Longrightarrow> (\<forall>c\<in>set (codePoints s). lower_cp c = [c]) \<and> concat (map cp_units (codePoints s)) = s"
proof (induction s rule: codePoints.induct)
  case 1
  show ?case by simp
next
  case (2 c)
  then show ?case by (simp add: cp_units_def)
next
  case (3 h l r)
  show ?case
  proof (cases "isHigh h")
    case True
    with "3.prems" "3.IH"(1) show ?thesis by (simp add: cp_units_pair)
  next
    case False
    with "3.prems" "3.IH"(2) show ?thesis by (simp add: cp_units_def)
  qed
qed

lemma lower_seq_fixed: "\<forall>c\<in>set cps. lower_cp c = [c] \<Longrightarrow> lower_seq pre cps = cps"
proof (induction cps arbitrary: pre)
  case Nil
  show ?case by simp
next
  case (Cons c cps)
  have "lower_cp 0x3A3 = [0x3C3]" by code_simp
  with Cons.prems have "c \<noteq> 0x3A3" by auto
  with Cons show ?case by simp
qed

lemma toLowerCase_lowered: "lowered s \<Longrightarrow> toLowerCase s = s"
proof -
  assume "lowered s"
  from codePoints_lowered [OF this] show ?thesis
    unfolding toLowerCase_def by (simp add: lower_seq_fixed)
qed

lemma lowered_dropWhile: "lowered s \<Longrightarrow> lowered (dropWhile is_space s)"
proof (induction s)
  case Nil
  show ?case by simp
next
  case (Cons c cs)
  show ?case
  proof (cases "is_space c")
    case True
    with space_bmp [of c] Cons show ?thesis by (simp add: lowered_bmp_Cons)
  next
    case False
    with Cons.prems show ?thesis by simp
  qed
qed

lemma lowered_append_spaces:
  "lowered (xs @ ws) \<Longrightarrow> \<forall>c\<in>set ws. is_space c \<Longrightarrow> lowered xs"
proof (induction xs rule: lowered.induct)
  case 1
  show ?case by simp
next
  case (2 c)
  show ?case
  proof (cases "isHigh c")
    case True
    with "2.prems" show ?thesis
      by (cases ws) (auto dest: surrogate_not_space [OF disjI2])
  next
    case False
    with "2.prems"(1) show ?thesis by (simp add: lowered_bmp_Cons)
  qed
next
  case (3 h l r)
  then show ?case by (auto split: if_splits)
qed

lemma lowered_trim: "lowered s \<Longrightarrow> lowered (trim s)"
proof -
  assume "lowered s"
  then have d: "lowered (trimStart s)" by (simp add: trimStart_def lowered_dropWhile)
  have "trimEnd (trimStart s) @ rev (takeWhile is_space (rev (trimStart s))) = trimStart s"
    by (rule trimEnd_prefix)
  moreover have "\<forall>c\<in>set (rev (takeWhile is_space (rev (trimStart s)))). is_space c"
    by (auto dest: set_takeWhileD)
  ultimately show ?thesis unfolding trim_def using d lowered_append_spaces by metis
qed

lemma lowered_squeeze: "lowered s \<Longrightarrow> lowered (squeeze is_space [0x2D] s)"
proof (induction s rule: length_induct)
  case (1 s)
  show ?case
  proof (cases s)
    case Nil
    then show ?thesis by simp
  next
    case (Cons c cs)
    have "lower_cp 0x2D = [0x2D]" by code_simp
    then have dash: "\<And>u. lowered (0x2D # u) = lowered u"
      by (subst lowered_bmp_Cons) (simp_all add: isHigh_def isLow_def)
    show ?thesis
    proof (cases "is_space c")
      case True
      with space_bmp [of c] "1.prems" Cons have "lowered cs" by (simp add: lowered_bmp_Cons)
      then have "lowered (dropWhile is_space cs)" by (rule lowered_dropWhile)
      moreover have "length (dropWhile is_space cs) < length s"
        using Cons length_dropWhile_le [of is_space cs] by simp
      ultimately have "lowered (squeeze is_space [0x2D] (dropWhile is_space cs))"
        using "1.IH" by blast
      then show ?thesis using Cons True by (simp add: dash)
    next
      case False
      show ?thesis
      proof (cases "isHigh c")
        case True
        with "1.prems" Cons obtain l r where cs: "cs = l # r" and l: "isLow l"
          and f: "lower_cp (pair_cp c l) = [pair_cp c l]" and r: "lowered r"
          by (auto simp: lowered_high_Cons)
        have "lowered (squeeze is_space [0x2D] r)" using "1.IH" r Cons cs by simp
        moreover have "\<not> is_space l" using l surrogate_not_space by blast
        ultimately show ?thesis using Cons cs False True l f by simp
      next
        case notHigh: False
        with "1.prems" Cons have c: "c \<le> 0xFFFF" "\<not> isLow c" "lower_cp c = [c]" and "lowered cs"
          by (simp_all add: lowered_bmp_Cons)
        then have "lowered (squeeze is_space [0x2D] cs)" using "1.IH" Cons by simp
        then show ?thesis using Cons False notHigh c by (simp add: lowered_bmp_Cons)
      qed
    qed
  qed
qed

lemma lowered_filter: "lowered s \<Longrightarrow> lowered (filter slug_keep s)"
proof (induction s rule: lowered.induct)
  case 1
  show ?case by simp
next
  case (2 c)
  then show ?case by simp
next
  case (3 h l r)
  show ?case
  proof (cases "isHigh h")
    case True
    with "3.prems" have l: "isLow l" and "lowered r" by simp_all
    with "3.IH"(1) True have "lowered (filter slug_keep r)" by simp
    then show ?thesis using True l "3.prems" by (simp add: surrogate_keep)
  next
    case False
    with "3.prems" have h: "h \<le> 0xFFFF" "\<not> isLow h" "lower_cp h = [h]" and "lowered (l # r)"
      by simp_all
    with "3.IH"(2) False have "lowered (filter slug_keep (l # r))" by simp
    then show ?thesis using False h
      by (cases "slug_keep h") (simp_all add: lowered_bmp_Cons del: lowered.simps)
  qed
qed

subsection \<open>The slug of a slug\<close>

lemma slugify_squeeze:
  "slugify t = filter slug_keep (squeeze is_space [0x2D] (trim (toLowerCase t)))"
  by (simp add: slugify_def re_spaces_def re_unsafe_def replace_g_single squeeze_filter js_def
        del: match_here.simps)

lemma slugify_lowered: "wellFormed t \<Longrightarrow> lowered (slugify t)"
  unfolding slugify_squeeze
  by (intro lowered_filter lowered_squeeze lowered_trim toLowerCase_wellFormed)

lemma slugify_chars: "c \<in> set (slugify t) \<Longrightarrow> slug_keep c \<and> \<not> is_space c"
proof -
  assume c: "c \<in> set (slugify t)"
  then have "slug_keep c" by (simp add: slugify_squeeze)
  moreover have "c \<in> set (squeeze is_space [0x2D] (trim (toLowerCase t)))"
    using c by (simp add: slugify_squeeze)
  then have "c = 0x2D \<or> \<not> is_space c" using set_squeeze by fastforce
  then have "\<not> is_space c"
    by (auto simp: is_space_def isWhiteSpace_def isLineTerminator_def)
  ultimately show ?thesis by simp
qed

lemma trim_no_space: "\<forall>c\<in>set d. \<not> is_space c \<Longrightarrow> trim d = d"
proof -
  assume a: "\<forall>c\<in>set d. \<not> is_space c"
  then have "dropWhile is_space d = d" by (cases d) simp_all
  moreover have "dropWhile is_space (rev d) = rev d"
    using a by (cases "rev d") (simp, metis dropWhile.simps(2) list.set_intros(1) set_rev)
  ultimately show ?thesis by (simp add: trim_def trimStart_def trimEnd_def)
qed

text \<open>
  Claim C8 says that \<open>slugify (slugify t) = slugify t\<close> for every string \<open>t\<close>. The patterns
  of \<open>slugify\<close> work on code units and keep every code unit from \<open>0x80\<close> on, surrogates
  included. In the string of the unpaired high surrogate \<open>0xD801\<close>, an exclamation mark and
  the unpaired low surrogate \<open>0xDC00\<close>, \<open>toLowerCase\<close> changes nothing; removing the
  exclamation mark joins the two surrogates to the code point \<open>0x10400\<close>, a capital letter,
  which the second \<open>slugify\<close> maps to its small letter \<open>0x10428\<close>.
\<close>

theorem slugify_joins_surrogates:
  "slugify [0xD801, 0x21, 0xDC00] = [0xD801, 0xDC00] \<and>
   slugify (slugify [0xD801, 0x21, 0xDC00]) = [0xD801, 0xDC28]"
  by code_simp

text \<open>
  Claim C8, amended. For every well-formed UTF-16 string \<open>t\<close> (no unpaired surrogate),
  \<open>slugify (slugify t) = slugify t\<close>. The witness is the slug of a Greek word that ends in
  a capital sigma, followed by a comma, two spaces, \<open>U+0130\<close> and a capital letter of a
  supplementary plane.
\<close>

theorem slugify_idempotent_wellformed:
  "wellFormed t \<Longrightarrow> slugify (slugify t) = slugify t"
proof -
  assume wf: "wellFormed t"
  let ?d = "slugify t"
  have "toLowerCase ?d = ?d" using wf by (intro toLowerCase_lowered slugify_lowered)
  moreover have "trim ?d = ?d" using slugify_chars by (intro trim_no_space) blast
  moreover have "squeeze is_space [0x2D] ?d = ?d" using slugify_chars by (intro squeeze_id) blast
  moreover have "filter slug_keep ?d = ?d" using slugify_chars by (simp add: filter_id_conv)
  ultimately show ?thesis by (subst slugify_squeeze) simp
qed

theorem slugify_idempotent_wellformed_witness:
  "wellFormed ([0x39F, 0x394, 0x39F, 0x3A3] @ js '',  '' @ [0x130, 0xD801, 0xDC00]) \<and>
   slugify ([0x39F, 0x394, 0x39F, 0x3A3] @ js '',  '' @ [0x130, 0xD801, 0xDC00]) =
     [0x3BF, 0x3B4, 0x3BF, 0x3C2] @ js ''-i'' @ [0x307, 0xD801, 0xDC28] \<and>
   slugify ([0x3BF, 0x3B4, 0x3BF, 0x3C2] @ js ''-i'' @ [0x307, 0xD801, 0xDC28]) =
     [0x3BF, 0x3B4, 0x3BF, 0x3C2] @ js ''-i'' @ [0x307, 0xD801, 0xDC28]"
proof -
  have w: "wellFormed ([0x39F, 0x394, 0x39F, 0x3A3] @ js '',  '' @ [0x130, 0xD801, 0xDC00])"
    by code_simp
  have s: "slugify ([0x39F, 0x394, 0x39F, 0x3A3] @ js '',  '' @ [0x130, 0xD801, 0xDC00]) =
     [0x3BF, 0x3B4, 0x3BF, 0x3C2] @ js ''-i'' @ [0x307, 0xD801, 0xDC28]"
    by code_simp
  from slugify_idempotent_wellformed [OF w] w s show ?thesis by simp
qed

section \<open>The depth filter of the table of contents\<close>

text \<open>
  The lines for which \<open>parseTOC\<close> emits an entry: one to three \<open>#\<close>, then whitespace, then
  a non-empty text without line terminator (carriage return, \<open>U+2028\<close>, \<open>U+2029\<close>).
\<close>

lemma toc_line_iff:
  "is_toc_line line \<longleftrightarrow>
     (\<exists>n ws rest. line = replicate n 0x23 @ ws @ rest \<and> 1 \<le> n \<and> n \<le> 3 \<and>
                 ws \<noteq> [] \<and> (\<forall>c\<in>set ws. is_space c) \<and>
                 rest \<noteq> [] \<and> (\<forall>c\<in>set rest. is_dot c))"
  (is "?L \<longleftrightarrow> ?R")
proof
  assume ?L
  then have "accepts headerRegex line" unfolding is_toc_line_def match_here_accepts .
  then obtain i j k where i: "1 \<le> i" "i \<le> 3" "\<forall>c\<in>set (take i line). c = 0x23" "i \<le> length line"
    and j: "1 \<le> j" "j \<le> length (drop i line)" "\<forall>c\<in>set (take j (drop i line)). is_space c"
    and k: "1 \<le> k" "k \<le> length (drop j (drop i line))"
           "\<forall>c\<in>set (take k (drop j (drop i line))). is_dot c"
           "drop k (drop j (drop i line)) = []"
    by (auto simp: headerRegex_def chr_def)
  define ws where "ws = take j (drop i line)"
  define rest where "rest = drop j (drop i line)"
  have h: "take i line = replicate i 0x23" using i by (intro replicate_eqI) auto
  have l: "line = replicate i 0x23 @ ws @ rest"
    unfolding h [symmetric] ws_def rest_def by (simp only: append_take_drop_id)
  have "take k rest = rest" using k(4) unfolding rest_def by (metis append_Nil2 append_take_drop_id)
  then have d: "\<forall>c\<in>set rest. is_dot c" using k(3) unfolding rest_def by simp
  have w: "ws \<noteq> []" using j(1,2) unfolding ws_def by auto
  have t: "rest \<noteq> []" using k(1,2) unfolding rest_def by auto
  have s: "\<forall>c\<in>set ws. is_space c" using j(3) unfolding ws_def .
  from l i(1,2) w s t d show ?R by blast
next
  assume ?R
  then obtain n ws rest where l: "line = replicate n 0x23 @ ws @ rest" and n: "1 \<le> n" "n \<le> 3"
    and ws: "ws \<noteq> []" "\<forall>c\<in>set ws. is_space c" and rest: "rest \<noteq> []" "\<forall>c\<in>set rest. is_dot c"
    by blast
  have a2: "accepts [Rep is_dot 1 None True, Eos] rest"
    using rest
      accepts_RepI [where u = rest and v = "[]" and lo = 1 and hi = None and p = is_dot
                      and as = "[Eos]" and cap = True]
    by (simp add: Suc_le_eq del: accepts.simps(3))
  have a1: "accepts [Rep is_space 1 None False, Rep is_dot 1 None True, Eos] (ws @ rest)"
    using ws
      accepts_RepI [where u = ws and v = rest and lo = 1 and hi = None and p = is_space
                      and cap = False, OF _ _ _ a2]
    by (simp add: Suc_le_eq del: accepts.simps)
  have "accepts headerRegex line"
    unfolding headerRegex_def l
    using n
      accepts_RepI [where u = "replicate n 0x23" and lo = 1 and hi = "Some 3"
                      and p = "\<lambda>c. c = chr CHR ''#''" and cap = True, OF _ _ _ a1]
    by (simp add: chr_def del: accepts.simps)
  then show ?L unfolding is_toc_line_def match_here_accepts .
qed

text \<open>
  The entries of \<open>parseTOC\<close> are made from these lines, in order: the level is the number
  of \<open>#\<close> at the start of the line and the title is the trimmed text behind them.
\<close>

lemma header_match:
  assumes "match_here headerRegex line = Some (gs, r)"
  shows "\<exists>n ws rest. line = replicate n 0x23 @ ws @ rest \<and> 1 \<le> n \<and> n \<le> 3 \<and>
           ws \<noteq> [] \<and> (\<forall>c\<in>set ws. is_space c) \<and> rest \<noteq> [] \<and> (\<forall>c\<in>set rest. is_dot c) \<and>
           gs = [replicate n 0x23, rest]"
proof -
  have "parses headerRegex line gs r" using assms by (rule match_here_parses)
  then obtain i j k where i: "1 \<le> i" "i \<le> 3" "\<forall>c\<in>set (take i line). c = 0x23" "i \<le> length line"
    and j: "1 \<le> j" "j \<le> length (drop i line)" "\<forall>c\<in>set (take j (drop i line)). is_space c"
    and k: "1 \<le> k" "k \<le> length (drop j (drop i line))"
           "\<forall>c\<in>set (take k (drop j (drop i line))). is_dot c"
           "drop k (drop j (drop i line)) = []"
    and g: "gs \<noteq> []" "hd gs = take i line" "tl gs \<noteq> []"
           "hd (tl gs) = take k (drop j (drop i line))" "tl (tl gs) = []"
    by (auto simp: headerRegex_def chr_def)
  define ws where "ws = take j (drop i line)"
  define rest where "rest = drop j (drop i line)"
  have h: "take i line = replicate i 0x23" using i by (intro replicate_eqI) auto
  have l: "line = replicate i 0x23 @ ws @ rest"
    unfolding h [symmetric] ws_def rest_def by (simp only: append_take_drop_id)
  have tk: "take k rest = rest" using k(4) unfolding rest_def by (metis append_Nil2 append_take_drop_id)
  then have d: "\<forall>c\<in>set rest. is_dot c" using k(3) unfolding rest_def by simp
  have w: "ws \<noteq> []" using j(1,2) unfolding ws_def by auto
  have t: "rest \<noteq> []" using k(1,2) unfolding rest_def by auto
  have s: "\<forall>c\<in>set ws. is_space c" using j(3) unfolding ws_def .
  have "gs = [hd gs, hd (tl gs)]" using g(1,3,5) by (metis list.collapse)
  then have gs: "gs = [replicate i 0x23, rest]" using g(2,4) h tk unfolding rest_def by simp
  from l i(1,2) w s t d gs show ?thesis by blast
qed

lemma hash_not_space: "is_space c \<Longrightarrow> c \<noteq> 0x23"
  by (auto simp: is_space_def isWhiteSpace_def isLineTerminator_def)

lemma trim_drop_spaces: "\<forall>c\<in>set ws. is_space c \<Longrightarrow> trim (ws @ rest) = trim rest"
  by (induction ws) (simp_all add: trim_def trimStart_def)

lemma toc_step_heading:
  assumes "is_toc_line line"
  shows "\<exists>id. toc (toc_step st line) =
           toc st @ [\<lparr>toc_id = id, toc_title = trim (dropWhile is_hash line),
                       toc_level = length (takeWhile is_hash line)\<rparr>]"
proof -
  obtain gs r where m: "match_here headerRegex line = Some (gs, r)"
    using assms unfolding is_toc_line_def by auto
  from header_match [OF m] obtain n ws rest where l: "line = replicate n 0x23 @ ws @ rest"
    and ws: "ws \<noteq> []" "\<forall>c\<in>set ws. is_space c" and gs: "gs = [replicate n 0x23, rest]"
    by blast
  have "\<not> is_hash (hd ws)" using ws hash_not_space by (cases ws) (auto simp: is_hash_def)
  then have tw: "takeWhile is_hash line = replicate n 0x23"
    and dw: "dropWhile is_hash line = ws @ rest"
    unfolding l using ws(1)
    by (cases ws; simp add: takeWhile_append dropWhile_append is_hash_def takeWhile_eq_all_conv)+
  have title: "trim (gs ! 1) = trim (dropWhile is_hash line)"
    unfolding dw gs using ws(2) by (simp add: trim_drop_spaces)
  have level: "length (gs ! 0) = length (takeWhile is_hash line)"
    unfolding tw gs by simp
  show ?thesis
    unfolding toc_step_def m title [symmetric] level [symmetric]
    by (simp add: Let_def split: option.split)
qed

lemma toc_levels_titles_foldl:
  "map (\<lambda>it. (toc_level it, toc_title it)) (toc (foldl toc_step st ls)) =
   map (\<lambda>it. (toc_level it, toc_title it)) (toc st) @
   map (\<lambda>l. (length (takeWhile is_hash l), trim (dropWhile is_hash l))) (filter is_toc_line ls)"
proof (induction ls arbitrary: st)
  case Nil
  show ?case by simp
next
  case (Cons l ls)
  show ?case
  proof (cases "is_toc_line l")
    case True
    from toc_step_heading [OF True, of st] obtain id where
      "toc (toc_step st l) = toc st @ [\<lparr>toc_id = id, toc_title = trim (dropWhile is_hash l),
                       toc_level = length (takeWhile is_hash l)\<rparr>]" by blast
    then show ?thesis using True by (simp add: Cons.IH)
  next
    case False
    then show ?thesis by (simp add: Cons.IH toc_step_no_heading)
  qed
qed

lemma toc_levels_titles:
  "map (\<lambda>it. (toc_level it, toc_title it)) (parseTOC text) =
   map (\<lambda>l. (length (takeWhile is_hash l), trim (dropWhile is_hash l)))
       (filter is_toc_line (split_nl text))"
  by (simp add: parseTOC_def toc_levels_titles_foldl)

text \<open>
  Claim C9 says that \<open>parseTOC\<close> emits an entry for a line exactly when the line is one to
  three \<open>#\<close>, then whitespace, then non-empty text. The two examples of the claim hold:
  \<open>#### Four\<close> gives no entry and \<open>### Three\<close> gives one entry of level 3. In a document
  with CRLF line ends every line keeps its carriage return after \<open>split('\n')\<close>: the line
  \<open># A\<close> with a carriage return is a \<open>#\<close>, whitespace and non-empty text, and
  \<open>parseMarkdownByH1\<close> opens the section \<open>A\<close> for it, but \<open>parseTOC\<close> emits nothing, since
  \<open>.\<close> does not match the carriage return and \<open>$\<close> only matches at the very end.
\<close>

theorem toc_depth_filter_cr:
  "parseTOC (js ''#### Four'') = [] \<and>
   parseTOC (js ''### Three'') = [\<lparr>toc_id = js ''three'', toc_title = js ''Three'', toc_level = 3\<rparr>] \<and>
   parseTOC (js ''# A'' @ [0x0D, 0x0A] @ js ''text'') = [] \<and>
   map sec_title (parseMarkdownByH1 (js ''# A'' @ [0x0D, 0x0A] @ js ''text'')) = [js ''A''] \<and>
   map sec_content (parseMarkdownByH1 (js ''# A'' @ [0x0D, 0x0A] @ js ''text'')) = [js ''text'']"
  by code_simp

section \<open>Headings inside code fences\<close>

text \<open>
  Claim C10. Neither parser tracks code fences: in the document of the three lines
  \<open>```\<close>, \<open># X\<close>, \<open>```\<close> the line \<open># X\<close> starts the section \<open>X\<close> of \<open>parseMarkdownByH1\<close>
  (the fence lines end up in two different sections) and gets an entry of \<open>parseTOC\<close>.
\<close>

theorem code_fence_heading:
  "map sec_title (parseMarkdownByH1 (js ''```\<newline># X\<newline>```'')) = [js ''Introduction'', js ''X''] \<and>
   map sec_content (parseMarkdownByH1 (js ''```\<newline># X\<newline>```'')) = [js ''```'', js ''```''] \<and>
   parseTOC (js ''```\<newline># X\<newline>```'') = [\<lparr>toc_id = js ''x'', toc_title = js ''X'', toc_level = 1\<rparr>]"
  by code_simp

end
